theory Spec2Isabelle
  imports Complex_Main "HOL-Library.Sublist"
begin

section \<open>JavaScript strings\<close>

text \<open>
  A JavaScript string is a sequence of UTF-16 code units. A code unit is modelled as a
  natural number (every unit of a real string is below 65536; nothing below depends on
  the bound, so the theorems hold for every list of numbers). \<open>length\<close> is
  \<^verbatim>\<open>.length\<close>, \<open>take\<close> is \<^verbatim>\<open>.substring(0, n)\<close>.
\<close>

type_synonym jschar = nat
type_synonym jsstring = "nat list"

definition str :: "string \<Rightarrow> jsstring" where
  "str s = map of_char s"

text \<open>
  WhiteSpace and LineTerminator of ECMAScript: what \<^verbatim>\<open>String.prototype.trim\<close>
  strips and what \<^verbatim>\<open>\s\<close> matches in a regular expression.
\<close>

definition isWhiteSpace :: "jschar \<Rightarrow> bool" where
  "isWhiteSpace c \<longleftrightarrow>
     c = 9 \<or> c = 10 \<or> c = 11 \<or> c = 12 \<or> c = 13 \<or> c = 32 \<or> c = 160 \<or> c = 5760 \<or>
     (8192 \<le> c \<and> c \<le> 8202) \<or> c = 8232 \<or> c = 8233 \<or> c = 8239 \<or> c = 8287 \<or>
     c = 12288 \<or> c = 65279"

definition trim :: "jsstring \<Rightarrow> jsstring" where
  "trim s = rev (dropWhile isWhiteSpace (rev (dropWhile isWhiteSpace s)))"

section \<open>Message identifiers (Chat.tsx, generateId)\<close>

text \<open>
  \<^verbatim>\<open>let messageIdCounter = 0;
const generateId = () => `msg_${Date.now()}_${++messageIdCounter}`;\<close>

  The counter is a JavaScript number, a double: \<^verbatim>\<open>++\<close> is exact below
  \<open>2^53\<close> and leaves \<open>2^53\<close> unchanged (the sum rounds back to it).
  \<^verbatim>\<open>Date.now()\<close> is an integer number of milliseconds. Both are far below
  \<open>10^21\<close>, where a number is printed as its decimal digits, with a leading minus
  sign when negative.
\<close>

fun digits :: "nat \<Rightarrow> jsstring" where
  "digits n = (if n < 10 then [48 + n] else digits (n div 10) @ [48 + n mod 10])"

declare digits.simps [simp del]

definition numberToString :: "int \<Rightarrow> jsstring" where
  "numberToString i = (if i < 0 then 45 # digits (nat (- i)) else digits (nat i))"

definition increment :: "nat \<Rightarrow> nat" where
  "increment c = (if c < 2 ^ 53 then c + 1 else c)"

definition makeId :: "int \<Rightarrow> nat \<Rightarrow> jsstring" where
  "makeId now c = str ''msg_'' @ numberToString now @ str ''_'' @ numberToString (int c)"

text \<open>One call: the clock reading and the counter before, the identifier and the counter after.\<close>

definition generateId :: "int \<Rightarrow> nat \<Rightarrow> jsstring \<times> nat" where
  "generateId now messageIdCounter =
     (let c = increment messageIdCounter in (makeId now c, c))"


text \<open>\<^verbatim>\<open>Array.prototype.findIndex\<close>: the first index whose element satisfies the
  predicate, \<open>None\<close> for the source's \<open>-1\<close>.\<close>

fun findIndex :: "('a \<Rightarrow> bool) \<Rightarrow> 'a list \<Rightarrow> nat option" where
  "findIndex p [] = None"
| "findIndex p (x # xs) = (if p x then Some 0 else map_option Suc (findIndex p xs))"

section \<open>Regular expressions\<close>

text \<open>
  ECMAScript matches a pattern by backtracking: every pattern node is a matcher that
  takes the rest of the pattern as its continuation. A matcher here is run on the text
  that starts at the current position and returns the number of code units the match
  covers from there, or \<open>None\<close> when every alternative fails. Only the nodes the
  program's patterns use are modelled.
\<close>

type_synonym matcher = "jsstring \<Rightarrow> nat option"

text \<open>The end of the pattern: the match is complete.\<close>

definition r_accept :: matcher where
  "r_accept s = Some 0"

text \<open>\<^verbatim>\<open>$\<close> without the \<^verbatim>\<open>m\<close> flag: only the end of the input.\<close>

definition r_eos :: matcher where
  "r_eos s = (if s = [] then Some 0 else None)"

text \<open>One code unit of a class.\<close>

fun r_char :: "(jschar \<Rightarrow> bool) \<Rightarrow> matcher \<Rightarrow> matcher" where
  "r_char p k [] = None"
| "r_char p k (c # cs) = (if p c then map_option Suc (k cs) else None)"

text \<open>A literal, unit by unit.\<close>

fun r_lit :: "jsstring \<Rightarrow> matcher \<Rightarrow> matcher" where
  "r_lit [] k = k"
| "r_lit (a # as) k = r_char (\<lambda>c. c = a) (r_lit as k)"

text \<open>
  The \<^verbatim>\<open>i\<close> flag (without \<^verbatim>\<open>u\<close>) compares the Canonicalize of both
  units: the upper case of the unit, except that a unit from 128 on is never mapped
  below 128. Every letter of the program's patterns is ASCII, and the one unit beyond
  ASCII in them (U+FF5C) is the upper case of no other unit, so upper-casing the ASCII
  letters decides the same matches.
\<close>

definition canonicalize :: "jschar \<Rightarrow> jschar" where
  "canonicalize c = (if 97 \<le> c \<and> c \<le> 122 then c - 32 else c)"

fun r_lit_ci :: "jsstring \<Rightarrow> matcher \<Rightarrow> matcher" where
  "r_lit_ci [] k = k"
| "r_lit_ci (a # as) k = r_char (\<lambda>c. canonicalize c = canonicalize a) (r_lit_ci as k)"

text \<open>\<^verbatim>\<open>X*?\<close>: first the continuation, then one more unit of the class.\<close>

fun r_lazy :: "(jschar \<Rightarrow> bool) \<Rightarrow> matcher \<Rightarrow> matcher" where
  "r_lazy p k [] = k []"
| "r_lazy p k (c # cs) =
     (case k (c # cs) of
        Some n \<Rightarrow> Some n
      | None \<Rightarrow> if p c then map_option Suc (r_lazy p k cs) else None)"

text \<open>\<^verbatim>\<open>X*\<close>: first one more unit of the class, then the continuation.\<close>

fun r_greedy :: "(jschar \<Rightarrow> bool) \<Rightarrow> matcher \<Rightarrow> matcher" where
  "r_greedy p k [] = k []"
| "r_greedy p k (c # cs) =
     (case (if p c then map_option Suc (r_greedy p k cs) else None) of
        Some n \<Rightarrow> Some n
      | None \<Rightarrow> k (c # cs))"

text \<open>\<^verbatim>\<open>(a|b|...)\<close>: the first alternative that succeeds with the continuation.\<close>

fun r_alt :: "(matcher \<Rightarrow> matcher) list \<Rightarrow> matcher \<Rightarrow> matcher" where
  "r_alt [] k s = None"
| "r_alt (a # as) k s = (case a k s of Some n \<Rightarrow> Some n | None \<Rightarrow> r_alt as k s)"

text \<open>\<^verbatim>\<open>.\<close> with the \<^verbatim>\<open>s\<close> flag matches every unit; without it, every unit but
  a line terminator.\<close>

definition anyChar :: "jschar \<Rightarrow> bool" where
  "anyChar c = True"

definition isLineTerminator :: "jschar \<Rightarrow> bool" where
  "isLineTerminator c \<longleftrightarrow> c = 10 \<or> c = 13 \<or> c = 8232 \<or> c = 8233"

definition dot :: "jschar \<Rightarrow> bool" where
  "dot c = (\<not> isLineTerminator c)"

text \<open>
  \<^verbatim>\<open>String.prototype.replace\<close> with a \<^verbatim>\<open>g\<close> pattern: the text is scanned from
  the left; where the pattern matches, the replacement of the matched text is written
  and the scan goes on behind the match; elsewhere the unit is copied. The counter is
  the number of units of the last match still to be skipped. After an empty match the
  scan moves one unit on and copies it.
\<close>

fun replaceAll :: "matcher \<Rightarrow> (jsstring \<Rightarrow> jsstring) \<Rightarrow> nat \<Rightarrow> jsstring \<Rightarrow> jsstring" where
  "replaceAll m f 0 [] = (case m [] of Some n \<Rightarrow> f [] | None \<Rightarrow> [])"
| "replaceAll m f 0 (c # cs) =
     (case m (c # cs) of
        None \<Rightarrow> c # replaceAll m f 0 cs
      | Some 0 \<Rightarrow> f [] @ c # replaceAll m f 0 cs
      | Some (Suc n) \<Rightarrow> f (take (Suc n) (c # cs)) @ replaceAll m f n cs)"
| "replaceAll m f (Suc k) [] = []"
| "replaceAll m f (Suc k) (c # cs) = replaceAll m f k cs"

text \<open>\<^verbatim>\<open>RegExp.prototype.test\<close> for a pattern that starts with \<^verbatim>\<open>^\<close> (no
  \<^verbatim>\<open>m\<close> flag): only a match at the start of the input counts.\<close>

definition test_anchored :: "matcher \<Rightarrow> jsstring \<Rightarrow> bool" where
  "test_anchored m s = (m s \<noteq> None)"

section \<open>Token cleanup (llama.config.ts, cleanResponse)\<close>

text \<open>\<^verbatim>\<open>/<think>(.*?)<\/think>/gs\<close> and \<^verbatim>\<open>/<think>.*?<\/think>/gs\<close>\<close>

definition think_re :: matcher where
  "think_re = r_lit (str ''<think>'') (r_lazy anyChar (r_lit (str ''</think>'') r_accept))"

text \<open>
  The replacer of the first pass. Its second argument is group 1, the units that
  \<^verbatim>\<open>(.*?)\<close> consumed: the match without the 7 units of the opening tag and the
  8 units of the closing tag.
\<close>

definition limitThinking :: "jsstring \<Rightarrow> jsstring" where
  "limitThinking match =
     (let thinkingContent = take (length match - 15) (drop 7 match) in
      if length thinkingContent > 200
      then str ''<think>'' @ take 200 thinkingContent @ str ''...</think>''
      else match)"

text \<open>\<^verbatim>\<open>/REDACTED_SPECIAL_TOKEN/g\<close>\<close>

definition redacted_re :: matcher where
  "redacted_re = r_lit (str ''REDACTED_SPECIAL_TOKEN'') r_accept"

text \<open>\<^verbatim>\<open>/<\|.*?\|>/g\<close>\<close>

definition special_re :: matcher where
  "special_re = r_lit (str ''<|'') (r_lazy dot (r_lit (str ''|>'') r_accept))"

text \<open>\<^verbatim>\<open>/< \[U+FF5C]end_of_sentence\[U+FF5C]>/gi\<close>; U+FF5C is the unit 65372.\<close>

definition eos_re :: matcher where
  "eos_re = r_lit_ci (str ''< '' @ [65372] @ str ''end_of_sentence'' @ [65372] @ str ''>'') r_accept"

text \<open>\<^verbatim>\<open>/<\[U+FF5C].*?end.*?\[U+FF5C]>/gi\<close>\<close>

definition endtok_re :: matcher where
  "endtok_re =
     r_lit_ci (str ''<'' @ [65372])
       (r_lazy dot (r_lit_ci (str ''end'') (r_lazy dot (r_lit_ci ([65372] @ str ''>'') r_accept))))"

text \<open>\<^verbatim>\<open>/\n\s*\n\s*\n/g\<close>\<close>

definition newlines_re :: matcher where
  "newlines_re =
     r_lit [10] (r_greedy isWhiteSpace (r_lit [10] (r_greedy isWhiteSpace (r_lit [10] r_accept))))"

text \<open>\<^verbatim>\<open>/[ \t]+/g\<close>\<close>

definition isHSpace :: "jschar \<Rightarrow> bool" where
  "isHSpace c \<longleftrightarrow> c = 32 \<or> c = 9"

definition hspace_re :: matcher where
  "hspace_re = r_char isHSpace (r_greedy isHSpace r_accept)"

text \<open>The passes of \<^verbatim>\<open>cleanResponse\<close>, in the order of the source.\<close>

definition limitThinkingPass :: "jsstring \<Rightarrow> jsstring" where
  "limitThinkingPass s = replaceAll think_re limitThinking 0 s"

definition removeThinking :: "jsstring \<Rightarrow> jsstring" where
  "removeThinking s = replaceAll think_re (\<lambda>m. []) 0 s"

definition removeRedacted :: "jsstring \<Rightarrow> jsstring" where
  "removeRedacted s = replaceAll redacted_re (\<lambda>m. []) 0 s"

definition removeSpecial :: "jsstring \<Rightarrow> jsstring" where
  "removeSpecial s = replaceAll special_re (\<lambda>m. []) 0 s"

definition removeEndOfSentence :: "jsstring \<Rightarrow> jsstring" where
  "removeEndOfSentence s = replaceAll eos_re (\<lambda>m. []) 0 s"

definition removeEndTokens :: "jsstring \<Rightarrow> jsstring" where
  "removeEndTokens s = replaceAll endtok_re (\<lambda>m. []) 0 s"

definition normalizeNewlines :: "jsstring \<Rightarrow> jsstring" where
  "normalizeNewlines s = replaceAll newlines_re (\<lambda>m. [10, 10]) 0 s"

definition normalizeSpaces :: "jsstring \<Rightarrow> jsstring" where
  "normalizeSpaces s = replaceAll hspace_re (\<lambda>m. [32]) 0 s"

definition cleanResponse :: "jsstring \<Rightarrow> jsstring" where
  "cleanResponse text' =
     trim (normalizeSpaces (normalizeNewlines (removeEndTokens (removeEndOfSentence
       (removeSpecial (removeRedacted (removeThinking (limitThinkingPass text'))))))))"

text \<open>
  The earlier version of the file (part_002) has no first pass and one whitespace pass,
  \<^verbatim>\<open>.replace(/\s+/g, ' ')\<close>, in place of the last two.
\<close>

definition whitespace_re :: matcher where
  "whitespace_re = r_char isWhiteSpace (r_greedy isWhiteSpace r_accept)"

definition normalizeWhitespace :: "jsstring \<Rightarrow> jsstring" where
  "normalizeWhitespace s = replaceAll whitespace_re (\<lambda>m. [32]) 0 s"

definition cleanResponse_basic :: "jsstring \<Rightarrow> jsstring" where
  "cleanResponse_basic text' =
     trim (normalizeWhitespace (removeEndTokens (removeEndOfSentence
       (removeSpecial (removeRedacted (removeThinking text'))))))"

section \<open>Prompt assembly (Chat.tsx, createCompletion)\<close>

record Message =
  msg_id :: jsstring
  msg_text :: jsstring
  isUser :: bool
  timestamp :: int

text \<open>\<^verbatim>\<open>/^(hey|hello|hi|sup|yo|greetings)$/i.test(message.trim())\<close>\<close>

definition greeting_re :: matcher where
  "greeting_re =
     r_alt [r_lit_ci (str ''hey''), r_lit_ci (str ''hello''), r_lit_ci (str ''hi''),
            r_lit_ci (str ''sup''), r_lit_ci (str ''yo''), r_lit_ci (str ''greetings'')] r_eos"

definition isSimpleGreeting :: "jsstring \<Rightarrow> bool" where
  "isSimpleGreeting message = test_anchored greeting_re (trim message)"

text \<open>\<^verbatim>\<open>Array.prototype.slice(start)\<close>: a negative start counts from the end and
  stops at the first element.\<close>

definition slice :: "int \<Rightarrow> 'a list \<Rightarrow> 'a list" where
  "slice start xs =
     (let len = int (length xs);
          k = (if start < 0 then max (len + start) 0 else min start len)
      in drop (nat k) xs)"

text \<open>\<^verbatim>\<open>Array.prototype.join(sep)\<close>\<close>

fun join :: "jsstring \<Rightarrow> jsstring list \<Rightarrow> jsstring" where
  "join sep [] = []"
| "join sep [x] = x"
| "join sep (x # y # ys) = x @ sep @ join sep (y # ys)"

definition formatTurn :: "Message \<Rightarrow> jsstring" where
  "formatTurn msg = (if isUser msg then str ''User'' else str ''Assistant'') @ str '': '' @ msg_text msg"

definition fullPrompt :: "jsstring \<Rightarrow> Message list \<Rightarrow> jsstring \<Rightarrow> jsstring" where
  "fullPrompt systemPrompt messages message =
     (if isSimpleGreeting message
      then systemPrompt @ [10, 10] @ str ''User: '' @ message
      else
        let recentMessages = slice (- 4) messages;
            conversationHistory = join [10] (map formatTurn recentMessages)
        in systemPrompt @ [10, 10] @ conversationHistory @ [10] @ str ''User: '' @ message)"


section \<open>Completion (llama.config.ts, sendMessage; Chat.tsx, createCompletion)\<close>

text \<open>
  What a \<^verbatim>\<open>catch\<close> clause can receive: an \<^verbatim>\<open>Error\<close> object with its
  message, or any other thrown value.
\<close>

datatype thrown = Error jsstring | NonError

text \<open>
  The native \<^verbatim>\<open>context.completion(params, callback)\<close> is not part of the
  repository. One call of it is what the program observes: the \<^verbatim>\<open>data.token\<close>
  of every callback invocation (possibly undefined), then either a rejection or a
  result with its \<^verbatim>\<open>text\<close> field (possibly undefined). The context maps the
  prompt to such a run.
\<close>

record completion_run =
  events :: "jsstring option list"
  outcome :: "thrown + jsstring option"

type_synonym LlamaContext = "jsstring \<Rightarrow> completion_run"

text \<open>A string is truthy when it is not empty; \<^verbatim>\<open>undefined\<close> is falsy.\<close>

definition orEmpty :: "jsstring option \<Rightarrow> jsstring" where
  "orEmpty t = (case t of None \<Rightarrow> [] | Some u \<Rightarrow> u)"

text \<open>The callback of \<^verbatim>\<open>sendMessage\<close>: \<^verbatim>\<open>if (data.token) { ...; onToken(data.token) }\<close>\<close>

definition onData :: "(jsstring \<Rightarrow> 's \<Rightarrow> 's) \<Rightarrow> jsstring option \<Rightarrow> 's \<Rightarrow> 's" where
  "onData onToken d st = (if orEmpty d \<noteq> [] then onToken (orEmpty d) st else st)"

text \<open>
  \<^verbatim>\<open>sendMessage\<close>: the callbacks run on the caller's state in their order, then the
  promise rejects with what the native call threw (\<^verbatim>\<open>throw error\<close>) or resolves
  with \<^verbatim>\<open>cleanedText || "No response generated"\<close>.
\<close>

definition sendMessage ::
  "LlamaContext \<Rightarrow> jsstring \<Rightarrow> (jsstring \<Rightarrow> 's \<Rightarrow> 's) \<Rightarrow> 's \<Rightarrow> (thrown + jsstring) \<times> 's" where
  "sendMessage context message onToken st =
     (let run = context message;
          st' = fold (onData onToken) (events run) st
      in case outcome run of
           Inl err \<Rightarrow> (Inl err, st')
         | Inr msgResultText \<Rightarrow>
             (let cleanedText = cleanResponse (orEmpty msgResultText)
              in (Inr (if cleanedText \<noteq> [] then cleanedText else str ''No response generated''), st')))"

record ChatState =
  messages :: "Message list"
  isLoading :: bool
  error :: "jsstring option"
  messageIdCounter :: nat

text \<open>The two \<^verbatim>\<open>setMessages(prev => ...)\<close> updaters: the first message with the
  identifier gets the new text; without such a message the list is unchanged.\<close>

definition updateMessage :: "jsstring \<Rightarrow> (jsstring \<Rightarrow> jsstring) \<Rightarrow> Message list \<Rightarrow> Message list" where
  "updateMessage streamingMessageId g prev =
     (case findIndex (\<lambda>msg. msg_id msg = streamingMessageId) prev of
        None \<Rightarrow> prev
      | Some streamingIndex \<Rightarrow>
          prev [streamingIndex := (prev ! streamingIndex)
                  \<lparr>msg_text := g (msg_text (prev ! streamingIndex))\<rparr>])"

definition appendToken :: "jsstring \<Rightarrow> jsstring \<Rightarrow> ChatState \<Rightarrow> ChatState" where
  "appendToken streamingMessageId token st =
     st\<lparr>messages := updateMessage streamingMessageId (\<lambda>t. t @ token) (messages st)\<rparr>"

text \<open>\<^verbatim>\<open>err instanceof Error ? err.message : "Unknown error occurred"\<close>\<close>

definition errorText :: "thrown \<Rightarrow> jsstring" where
  "errorText err = (case err of Error m \<Rightarrow> m | NonError \<Rightarrow> str ''Unknown error occurred'')"

text \<open>
  \<^verbatim>\<open>createCompletion\<close>. \<open>history\<close> is the \<^verbatim>\<open>messages\<close> of the render that
  built the closure, \<open>now\<close> the two clock readings (for the identifier and for the
  timestamp). The state updates are applied in the order the source queues them. The
  result is the returned string, \<open>None\<close> for \<^verbatim>\<open>null\<close>.
\<close>

definition createCompletion ::
  "LlamaContext \<Rightarrow> jsstring \<Rightarrow> Message list \<Rightarrow> int \<times> int \<Rightarrow> jsstring \<Rightarrow> ChatState
     \<Rightarrow> jsstring option \<times> ChatState" where
  "createCompletion context systemPrompt history now message st0 =
     (let st1 = st0\<lparr>isLoading := True, error := None\<rparr>;
          prompt = fullPrompt systemPrompt history message;
          (streamingMessageId, counter) = generateId (fst now) (messageIdCounter st1);
          streamingMessage =
            \<lparr>msg_id = streamingMessageId, msg_text = [], isUser = False, timestamp = snd now\<rparr>;
          st2 = st1\<lparr>messages := messages st1 @ [streamingMessage], messageIdCounter := counter\<rparr>;
          (result, st3) = sendMessage context prompt (appendToken streamingMessageId) st2
      in case result of
           Inl err \<Rightarrow> (None, st3\<lparr>error := Some (errorText err), isLoading := False\<rparr>)
         | Inr response \<Rightarrow>
             if response \<noteq> [] \<and> trim response \<noteq> []
             then (Some response,
                   st3\<lparr>messages := updateMessage streamingMessageId (\<lambda>t. response) (messages st3),
                       isLoading := False\<rparr>)
             else (None,
                   st3\<lparr>error := Some (errorText (Error (str ''Empty response from AI''))),
                       isLoading := False\<rparr>))"

section \<open>Model provisioning (the application screen, downloadModel)\<close>

text \<open>
  The file system maps a path to the content of the file there. The collaborators the
  screen calls are parameters: what the native \<^verbatim>\<open>initLlama\<close> makes of a path and
  the content found there (a context handle, or a throw), whether
  \<^verbatim>\<open>FileSystem.deleteAsync\<close> throws, and how the resumable download ends (a throw,
  no result, or a result with its \<^verbatim>\<open>uri\<close> and the content written there).
\<close>

type_synonym filesystem = "jsstring \<rightharpoonup> nat"

record Collaborators =
  initLlama :: "jsstring \<Rightarrow> nat option \<Rightarrow> thrown + nat"
  deleteThrows :: "thrown option"
  downloadAsync :: "jsstring \<Rightarrow> jsstring \<Rightarrow> thrown + (jsstring \<times> nat) option"

record ModelConfig =
  model_id :: jsstring
  model_name :: jsstring
  url :: jsstring

datatype effect =
    GetInfo jsstring
  | LoadModel jsstring
  | DeleteFile jsstring
  | Download jsstring jsstring

record AppState =
  llamaContext :: "nat option"
  loading :: bool
  app_error :: "jsstring option"
  status :: jsstring
  files :: filesystem
  trace :: "effect list"

definition getModelPath :: "jsstring \<Rightarrow> ModelConfig \<Rightarrow> jsstring" where
  "getModelPath documentDirectory model =
     documentDirectory @ str ''model_'' @ model_id model @ str ''.gguf''"

text \<open>\<^verbatim>\<open>loadModel(path)\<close> awaits \<^verbatim>\<open>initLlama\<close> on the path.\<close>

definition loadModel :: "Collaborators \<Rightarrow> jsstring \<Rightarrow> AppState \<Rightarrow> (thrown + nat) \<times> AppState" where
  "loadModel env path st =
     (initLlama env path (files st path), st\<lparr>trace := trace st @ [LoadModel path]\<rparr>)"

definition deleteAsync :: "Collaborators \<Rightarrow> jsstring \<Rightarrow> AppState \<Rightarrow> thrown option \<times> AppState" where
  "deleteAsync env path st =
     (case deleteThrows env of
        Some err \<Rightarrow> (Some err, st\<lparr>trace := trace st @ [DeleteFile path]\<rparr>)
      | None \<Rightarrow> (None, st\<lparr>files := (files st)(path := None), trace := trace st @ [DeleteFile path]\<rparr>))"

definition download ::
  "Collaborators \<Rightarrow> jsstring \<Rightarrow> jsstring \<Rightarrow> AppState \<Rightarrow> (thrown + jsstring option) \<times> AppState" where
  "download env source target st =
     (let st' = st\<lparr>trace := trace st @ [Download source target]\<rparr>
      in case downloadAsync env source target of
           Inl err \<Rightarrow> (Inl err, st')
         | Inr None \<Rightarrow> (Inr None, st')
         | Inr (Some (uri, content)) \<Rightarrow> (Inr (Some uri), st'\<lparr>files := (files st')(uri \<mapsto> content)\<rparr>))"

text \<open>The outer \<^verbatim>\<open>catch (e)\<close> of \<^verbatim>\<open>downloadModel\<close>.\<close>

definition failWith :: "thrown \<Rightarrow> AppState \<Rightarrow> AppState" where
  "failWith e st = st\<lparr>app_error := Some (errorText e), loading := False\<rparr>"

text \<open>
  The part after the check of the existing file: download, then load the download.
  \<^verbatim>\<open>if (!res?.uri)\<close> holds when there is no result and when the result's
  \<^verbatim>\<open>uri\<close> is the empty string; then the function throws and nothing is loaded.
\<close>

definition downloadAndLoad :: "Collaborators \<Rightarrow> jsstring \<Rightarrow> ModelConfig \<Rightarrow> AppState \<Rightarrow> AppState" where
  "downloadAndLoad env documentDirectory model st0 =
     (let st1 = st0\<lparr>status := str ''Downloading model...''\<rparr>;
          (res, st2) = download env (url model) (getModelPath documentDirectory model) st1
      in case res of
           Inl e \<Rightarrow> failWith e st2
         | Inr resUri \<Rightarrow>
             if orEmpty resUri = []
             then failWith (Error (str ''Download failed - no URI returned'')) st2
             else
               (let st3 = st2\<lparr>status := str ''Loading downloaded model...''\<rparr>;
                    (loaded, st4) = loadModel env (orEmpty resUri) st3
                in case loaded of
                     Inl e \<Rightarrow> failWith e st4
                   | Inr ctx \<Rightarrow> st4\<lparr>llamaContext := Some ctx, loading := False\<rparr>))"

definition downloadModel :: "Collaborators \<Rightarrow> jsstring \<Rightarrow> ModelConfig \<Rightarrow> AppState \<Rightarrow> AppState" where
  "downloadModel env documentDirectory model st0 =
     (let st1 = st0\<lparr>status := str ''Checking for existing model...''\<rparr>;
          modelPath = getModelPath documentDirectory model;
          isExists = (files st1 modelPath \<noteq> None);
          st2 = st1\<lparr>trace := trace st1 @ [GetInfo modelPath]\<rparr>
      in if isExists
         then
           (let st3 = st2\<lparr>status := str ''Loading existing model...''\<rparr>;
                (loaded, st4) = loadModel env modelPath st3
            in case loaded of
                 Inr ctx \<Rightarrow> st4\<lparr>llamaContext := Some ctx, loading := False\<rparr>
               | Inl loadError \<Rightarrow>
                   (let (deleteError, st5) = deleteAsync env modelPath st4
                    in downloadAndLoad env documentDirectory model st5))
         else downloadAndLoad env documentDirectory model st2)"


section \<open>Download progress (modelDownloader.ts, downloadModel; the application screen)\<close>

text \<open>
  A JavaScript number is a binary64 value: a rational it represents exactly, a NaN or an
  infinity. An arithmetic operation returns the exact result rounded to binary64. The
  rounding is the engine's and is a parameter \<open>fl\<close> here; what is known of it is that
  it leaves every representable value as it is (\<open>exactOnDoubles\<close>). The byte counts of
  a progress event are integers (the expected total is negative when the server sends
  no length). A quotient of two byte counts times 100 is far from the overflow range.
\<close>

datatype jsnumber = Num rat | NaN | PosInfinity | NegInfinity

definition exactOnDoubles :: "(rat \<Rightarrow> rat) \<Rightarrow> bool" where
  "exactOnDoubles fl \<longleftrightarrow>
     (\<forall>(m::int) (a::nat) (b::nat). \<bar>m\<bar> < 2 ^ 53 \<and> a \<le> 971 \<and> b \<le> 1074 \<longrightarrow>
        fl (of_int m * 2 ^ a / 2 ^ b) = of_int m * 2 ^ a / 2 ^ b)"

text \<open>\<^verbatim>\<open>a / b\<close> on two integers.\<close>

definition js_divide :: "(rat \<Rightarrow> rat) \<Rightarrow> int \<Rightarrow> int \<Rightarrow> jsnumber" where
  "js_divide fl a b =
     (if b = 0 then (if a = 0 then NaN else if 0 < a then PosInfinity else NegInfinity)
      else Num (fl (of_int a / of_int b)))"

text \<open>\<^verbatim>\<open>x * 100\<close>\<close>

definition js_times100 :: "(rat \<Rightarrow> rat) \<Rightarrow> jsnumber \<Rightarrow> jsnumber" where
  "js_times100 fl x = (case x of Num q \<Rightarrow> Num (fl (q * 100)) | other \<Rightarrow> other)"

record DownloadProgressData =
  totalBytesWritten :: int
  totalBytesExpectedToWrite :: int

text \<open>
  The callback \<^verbatim>\<open>ModelDownloader.downloadModel\<close> registers:
  \<^verbatim>\<open>const progress = downloadProgress.totalBytesWritten / downloadProgress.totalBytesExpectedToWrite;
onProgress?.(progress * 100);\<close>
\<close>

definition downloader_callback ::
  "(rat \<Rightarrow> rat) \<Rightarrow> (jsnumber \<Rightarrow> 's \<Rightarrow> 's) option \<Rightarrow> DownloadProgressData \<Rightarrow> 's \<Rightarrow> 's" where
  "downloader_callback fl onProgress downloadProgress st =
     (let progress = js_divide fl (totalBytesWritten downloadProgress)
                       (totalBytesExpectedToWrite downloadProgress)
      in case onProgress of None \<Rightarrow> st | Some f \<Rightarrow> f (js_times100 fl progress) st)"

text \<open>
  The callback of the application screen:
  \<^verbatim>\<open>setDownloadProgress(progress);
setStatus(`Downloading ${model.name}: ${(progress * 100).toFixed(1)}%`);\<close>
  The printing of a number with one decimal is a parameter.
\<close>

record ProgressState =
  downloadProgress :: jsnumber
  progressStatus :: jsstring

definition screen_callback ::
  "(rat \<Rightarrow> rat) \<Rightarrow> (jsnumber \<Rightarrow> jsstring) \<Rightarrow> jsstring \<Rightarrow> DownloadProgressData
     \<Rightarrow> ProgressState \<Rightarrow> ProgressState" where
  "screen_callback fl toFixed1 modelName event st =
     (let progress = js_divide fl (totalBytesWritten event) (totalBytesExpectedToWrite event)
      in st\<lparr>downloadProgress := progress,
            progressStatus := str ''Downloading '' @ modelName @ str '': ''
              @ toFixed1 (js_times100 fl progress) @ str ''%''\<rparr>)"

section \<open>The specification's words\<close>

text \<open>
  The greeting rule as the specification words it: the trimmed message, compared as a
  whole and without regard to case, is one of six words. These two definitions follow
  the specification, not the source; they are compared with \<open>isSimpleGreeting\<close> below.
\<close>

definition asciiLower :: "jschar \<Rightarrow> jschar" where
  "asciiLower c = (if 65 \<le> c \<and> c \<le> 90 then c + 32 else c)"

definition spec_isGreeting :: "jsstring \<Rightarrow> bool" where
  "spec_isGreeting message \<longleftrightarrow>
     map asciiLower (trim message) \<in>
       {str ''hey'', str ''hello'', str ''hi'', str ''sup'', str ''yo'', str ''greetings''}"

text \<open>
  The newline rule of the specification, three or more newlines are collapsed to exactly
  two, read on one run of whitespace, in which other whitespace may stand between the
  newlines: the run keeps what stands before its first newline and behind its last one,
  with two newlines in between; a run with fewer than three newlines is kept. This
  definition follows the specification, not the source; it is compared with
  \<open>normalizeNewlines\<close> below.
\<close>

definition spec_collapseRun :: "jsstring \<Rightarrow> jsstring" where
  "spec_collapseRun W =
     (if 3 \<le> count_list W 10
      then takeWhile (\<lambda>c. c \<noteq> 10) W @ [10, 10] @ rev (takeWhile (\<lambda>c. c \<noteq> 10) (rev W))
      else W)"

section \<open>Notions used in the proofs\<close>

text \<open>The position behind the last newline of a text, if it has one.\<close>

fun lastNewline :: "jsstring \<Rightarrow> nat option" where
  "lastNewline [] = None"
| "lastNewline (c # cs) =
     (case lastNewline cs of
        Some n \<Rightarrow> Some (Suc n)
      | None \<Rightarrow> if c = 10 then Some 1 else None)"

text \<open>No run of whitespace holds more than two newlines; \<open>k\<close> counts the newlines of
  the run the text starts in.\<close>

fun newlinesOk :: "nat \<Rightarrow> jsstring \<Rightarrow> bool" where
  "newlinesOk k [] = True"
| "newlinesOk k (c # cs) =
     (if c = 10 then k < 2 \<and> newlinesOk (Suc k) cs
      else if isWhiteSpace c then newlinesOk k cs
      else newlinesOk 0 cs)"

text \<open>Every space or tab is a single space with no space or tab behind it.\<close>

fun spacesOk :: "jsstring \<Rightarrow> bool" where
  "spacesOk [] = True"
| "spacesOk (c # cs) =
     ((if isHSpace c then c = 32 \<and> (case cs of [] \<Rightarrow> True | d # ds \<Rightarrow> \<not> isHSpace d) else True)
      \<and> spacesOk cs)"

text \<open>A matcher finds no match at any position of a text, the end included.\<close>

fun noMatch :: "matcher \<Rightarrow> jsstring \<Rightarrow> bool" where
  "noMatch m [] = (m [] = None)"
| "noMatch m (c # cs) = (m (c # cs) = None \<and> noMatch m cs)"

text \<open>None of the five patterns that the first six passes replace matches anywhere
  in a text.\<close>

definition markerFree :: "jsstring \<Rightarrow> bool" where
  "markerFree r \<longleftrightarrow>
     noMatch think_re r \<and> noMatch redacted_re r \<and> noMatch special_re r \<and>
     noMatch eos_re r \<and> noMatch endtok_re r"

text \<open>The first six passes of \<^verbatim>\<open>cleanResponse\<close>, which replace markers, and its
  last three, which work on whitespace.\<close>

definition stripMarkers :: "jsstring \<Rightarrow> jsstring" where
  "stripMarkers s =
     removeEndTokens (removeEndOfSentence (removeSpecial (removeRedacted
       (removeThinking (limitThinkingPass s)))))"

definition tidy :: "jsstring \<Rightarrow> jsstring" where
  "tidy t = trim (normalizeSpaces (normalizeNewlines t))"

section \<open>Properties\<close>

subsection \<open>Properties of the identifiers\<close>











subsection \<open>Identifiers are unique\<close>



subsection \<open>Greetings and the prompt\<close>

lemma canonicalize_asciiLower:
  "canonicalize c = canonicalize a \<longleftrightarrow> asciiLower c = asciiLower a"
  by (auto simp: canonicalize_def asciiLower_def)

lemma r_lit_ci_eos:
  "r_lit_ci lit r_eos s \<noteq> None \<longleftrightarrow> map asciiLower s = map asciiLower lit"
proof (induction lit arbitrary: s)
  case Nil
  then show ?case by (simp add: r_eos_def)
next
  case (Cons a lit)
  show ?case
  proof (cases s)
    case Nil
    then show ?thesis by simp
  next
    case (Cons c cs)
    with Cons.IH [of cs] show ?thesis
      by (auto simp: canonicalize_asciiLower)
  qed
qed

lemma r_lit_ci_eos_Some:
  "(\<exists>n. r_lit_ci lit r_eos s = Some n) \<longleftrightarrow> map asciiLower s = map asciiLower lit"
  using r_lit_ci_eos [of lit s] by auto

lemma r_alt_succeeds: "r_alt alts k s \<noteq> None \<longleftrightarrow> (\<exists>a \<in> set alts. a k s \<noteq> None)"
  by (induction alts) (auto split: option.splits)

lemma isSimpleGreeting_spec: "isSimpleGreeting message = spec_isGreeting message"
proof -
  have "isSimpleGreeting message \<longleftrightarrow>
      (\<exists>w \<in> {str ''hey'', str ''hello'', str ''hi'', str ''sup'', str ''yo'', str ''greetings''}.
         map asciiLower (trim message) = map asciiLower w)"
    unfolding isSimpleGreeting_def test_anchored_def greeting_re_def r_alt_succeeds
    by (simp add: r_lit_ci_eos_Some)
  also have "\<dots> = spec_isGreeting message"
    unfolding spec_isGreeting_def by (simp add: str_def asciiLower_def)
  finally show ?thesis .
qed

text \<open>
  C1. A message that, trimmed and compared without regard to case, is one of the six
  greeting words gets the system prompt, an empty line and its own user line, whatever
  the prior messages are; every other message gets the prompt with the history.
\<close>

theorem C1_greeting_omits_history:
  "(spec_isGreeting message \<longrightarrow>
      fullPrompt systemPrompt msgs message = systemPrompt @ [10, 10] @ str ''User: '' @ message)
   \<and> (\<not> spec_isGreeting message \<longrightarrow>
      fullPrompt systemPrompt msgs message =
        systemPrompt @ [10, 10] @ join [10] (map formatTurn (slice (- 4) msgs))
          @ [10] @ str ''User: '' @ message)"
  by (simp add: fullPrompt_def Let_def isSimpleGreeting_spec)

theorem C1_greeting_omits_history_witness:
  "spec_isGreeting (str ''  HeLLo '')
   \<and> fullPrompt (str ''Be brief.'')
        [\<lparr>msg_id = str ''msg_1_1'', msg_text = str ''Welcome'', isUser = False, timestamp = 1\<rparr>,
         \<lparr>msg_id = str ''msg_2_2'', msg_text = str ''What is a monad?'', isUser = True, timestamp = 2\<rparr>]
        (str ''  HeLLo '')
      = str ''Be brief.'' @ [10, 10] @ str ''User:   HeLLo ''
   \<and> \<not> spec_isGreeting (str ''ok'')
   \<and> fullPrompt (str ''Be brief.'')
        [\<lparr>msg_id = str ''msg_1_1'', msg_text = str ''Welcome'', isUser = False, timestamp = 1\<rparr>,
         \<lparr>msg_id = str ''msg_2_2'', msg_text = str ''What is a monad?'', isUser = True, timestamp = 2\<rparr>]
        (str ''ok'')
      = str ''Be brief.'' @ [10, 10] @ str ''Assistant: Welcome'' @ [10]
        @ str ''User: What is a monad?'' @ [10] @ str ''User: ok''"
proof -
  have g: "spec_isGreeting (str ''  HeLLo '')"
    by (simp add: spec_isGreeting_def trim_def isWhiteSpace_def asciiLower_def str_def)
  have n: "\<not> spec_isGreeting (str ''ok'')"
    by (simp add: spec_isGreeting_def trim_def isWhiteSpace_def asciiLower_def str_def)
  from g n
    C1_greeting_omits_history [of "str ''  HeLLo ''" "str ''Be brief.''"
      "[\<lparr>msg_id = str ''msg_1_1'', msg_text = str ''Welcome'', isUser = False, timestamp = 1\<rparr>,
        \<lparr>msg_id = str ''msg_2_2'', msg_text = str ''What is a monad?'', isUser = True, timestamp = 2\<rparr>]"]
    C1_greeting_omits_history [of "str ''ok''" "str ''Be brief.''"
      "[\<lparr>msg_id = str ''msg_1_1'', msg_text = str ''Welcome'', isUser = False, timestamp = 1\<rparr>,
        \<lparr>msg_id = str ''msg_2_2'', msg_text = str ''What is a monad?'', isUser = True, timestamp = 2\<rparr>]"]
  show ?thesis
    by (simp add: slice_def Let_def formatTurn_def str_def)
qed

lemma slice_last4: "slice (- 4) xs = drop (length xs - 4) xs"
  by (simp add: slice_def Let_def max_def nat_diff_distrib')

text \<open>
  C4. For a message that is not a greeting the prompt is the system prompt, an empty
  line, the last four prior messages (all of them when there are fewer), each as
  \<open>User: text\<close> or \<open>Assistant: text\<close> and joined by newlines, then a newline and the
  new user line.
\<close>

theorem C4_history_window:
  assumes "\<not> spec_isGreeting message"
  shows "fullPrompt systemPrompt msgs message =
           systemPrompt @ [10, 10]
           @ join [10] (map (\<lambda>m. (if isUser m then str ''User: '' else str ''Assistant: '') @ msg_text m)
                          (drop (length msgs - 4) msgs))
           @ [10] @ str ''User: '' @ message
         \<and> length (drop (length msgs - 4) msgs) = min 4 (length msgs)
         \<and> suffix (drop (length msgs - 4) msgs) msgs"
proof -
  have f: "formatTurn = (\<lambda>m. (if isUser m then str ''User: '' else str ''Assistant: '') @ msg_text m)"
    by (rule ext) (simp add: formatTurn_def str_def)
  from assms have "fullPrompt systemPrompt msgs message =
      systemPrompt @ [10, 10] @ join [10] (map formatTurn (slice (- 4) msgs))
        @ [10] @ str ''User: '' @ message"
    by (simp add: fullPrompt_def Let_def isSimpleGreeting_spec)
  then have "fullPrompt systemPrompt msgs message =
           systemPrompt @ [10, 10]
           @ join [10] (map (\<lambda>m. (if isUser m then str ''User: '' else str ''Assistant: '') @ msg_text m)
                          (drop (length msgs - 4) msgs))
           @ [10] @ str ''User: '' @ message"
    by (simp only: f slice_last4)
  moreover have "length (drop (length msgs - 4) msgs) = min 4 (length msgs)"
    by simp
  moreover have "suffix (drop (length msgs - 4) msgs) msgs"
    by (rule suffix_drop)
  ultimately show ?thesis by blast
qed

theorem C4_history_window_witness:
  "\<not> spec_isGreeting (str ''and then?'')
   \<and> fullPrompt (str ''S'')
        [\<lparr>msg_id = str ''a'', msg_text = str ''m1'', isUser = False, timestamp = 1\<rparr>,
         \<lparr>msg_id = str ''b'', msg_text = str ''m2'', isUser = True, timestamp = 2\<rparr>,
         \<lparr>msg_id = str ''c'', msg_text = str ''m3'', isUser = False, timestamp = 3\<rparr>,
         \<lparr>msg_id = str ''d'', msg_text = str ''m4'', isUser = True, timestamp = 4\<rparr>,
         \<lparr>msg_id = str ''e'', msg_text = str ''m5'', isUser = False, timestamp = 5\<rparr>]
        (str ''and then?'')
      = str ''S'' @ [10, 10] @ str ''User: m2'' @ [10] @ str ''Assistant: m3'' @ [10]
        @ str ''User: m4'' @ [10] @ str ''Assistant: m5'' @ [10] @ str ''User: and then?''"
proof -
  have n: "\<not> spec_isGreeting (str ''and then?'')"
    by (simp add: spec_isGreeting_def trim_def isWhiteSpace_def asciiLower_def str_def)
  from n C4_history_window [OF n, of "str ''S''"
      "[\<lparr>msg_id = str ''a'', msg_text = str ''m1'', isUser = False, timestamp = 1\<rparr>,
        \<lparr>msg_id = str ''b'', msg_text = str ''m2'', isUser = True, timestamp = 2\<rparr>,
        \<lparr>msg_id = str ''c'', msg_text = str ''m3'', isUser = False, timestamp = 3\<rparr>,
        \<lparr>msg_id = str ''d'', msg_text = str ''m4'', isUser = True, timestamp = 4\<rparr>,
        \<lparr>msg_id = str ''e'', msg_text = str ''m5'', isUser = False, timestamp = 5\<rparr>]"]
  show ?thesis
    by (simp add: str_def)
qed

subsection \<open>Trimming\<close>

lemma trim_Nil [simp]: "trim [] = []"
  by (simp add: trim_def)

lemma trim_ends:
  assumes "trim s \<noteq> []"
  shows "\<not> isWhiteSpace (hd (trim s))" and "\<not> isWhiteSpace (last (trim s))"
proof -
  let ?u = "dropWhile isWhiteSpace s"
  let ?v = "dropWhile isWhiteSpace (rev ?u)"
  from assms have v: "?v \<noteq> []" by (simp add: trim_def)
  then have u: "?u \<noteq> []" by (cases "?u") simp_all
  have "last (trim s) = hd ?v" using v by (simp add: trim_def last_rev)
  moreover have "\<not> isWhiteSpace (hd ?v)" using v by (rule hd_dropWhile)
  ultimately show "\<not> isWhiteSpace (last (trim s))" by simp
  have "?v = drop (length (takeWhile isWhiteSpace (rev ?u))) (rev ?u)"
    by (simp add: dropWhile_eq_drop)
  then have "trim s = rev (drop (length (takeWhile isWhiteSpace (rev ?u))) (rev ?u))"
    by (simp add: trim_def)
  then have "trim s = take (length ?u - length (takeWhile isWhiteSpace (rev ?u))) ?u"
    by (simp add: rev_drop)
  with assms have "hd (trim s) = hd ?u"
    by (metis hd_take take_eq_Nil not_gr_zero)
  moreover have "\<not> isWhiteSpace (hd ?u)" using u by (rule hd_dropWhile)
  ultimately show "\<not> isWhiteSpace (hd (trim s))" by simp
qed

lemma trim_id:
  assumes "s \<noteq> []" "\<not> isWhiteSpace (hd s)" "\<not> isWhiteSpace (last s)"
  shows "trim s = s"
proof -
  from assms have "dropWhile isWhiteSpace s = s"
    by (cases s) auto
  moreover from assms have "dropWhile isWhiteSpace (rev s) = rev s"
    by (cases "rev s") (auto simp: hd_rev)
  ultimately show ?thesis by (simp add: trim_def)
qed

lemma trim_trim: "trim (trim s) = trim s"
proof (cases "trim s = []")
  case True
  then show ?thesis by simp
next
  case False
  then show ?thesis using trim_ends [OF False] by (intro trim_id)
qed

lemma cleanResponse_trimmed: "trim (cleanResponse s) = cleanResponse s"
  by (simp add: cleanResponse_def trim_trim)

subsection \<open>Completion\<close>

lemma placeholder_trim: "trim (str ''No response generated'') = str ''No response generated''"
  by (simp add: trim_def isWhiteSpace_def str_def)

lemma sendMessage_result:
  "fst (sendMessage ctx message onToken st) =
     (case outcome (ctx message) of
        Inl err \<Rightarrow> Inl err
      | Inr t \<Rightarrow> Inr (if cleanResponse (orEmpty t) \<noteq> [] then cleanResponse (orEmpty t)
                       else str ''No response generated''))"
  by (simp add: sendMessage_def Let_def split: sum.splits)

lemma sendMessage_state:
  "snd (sendMessage ctx message onToken st) = fold (onData onToken) (events (ctx message)) st"
  by (simp add: sendMessage_def Let_def split: sum.splits)

lemma sendMessage_truthy:
  assumes "fst (sendMessage ctx message onToken st) = Inr r"
  shows "r \<noteq> [] \<and> trim r = r"
proof -
  from assms obtain t where r: "r = (if cleanResponse (orEmpty t) \<noteq> [] then cleanResponse (orEmpty t)
                       else str ''No response generated'')"
    by (auto simp: sendMessage_result split: sum.splits)
  show ?thesis
  proof (cases "cleanResponse (orEmpty t) = []")
    case True
    with r show ?thesis by (simp add: placeholder_trim) (simp add: str_def)
  next
    case False
    with r show ?thesis by (simp add: cleanResponse_trimmed)
  qed
qed

lemma findIndex_append_new:
  "\<forall>x \<in> set xs. \<not> p x \<Longrightarrow> p y \<Longrightarrow> findIndex p (xs @ [y]) = Some (length xs)"
  by (induction xs) auto

lemma updateMessage_last:
  assumes "\<forall>x \<in> set prev. msg_id x \<noteq> sid" and "msg_id m = sid"
  shows "updateMessage sid g (prev @ [m]) = prev @ [m\<lparr>msg_text := g (msg_text m)\<rparr>]"
proof -
  from assms have "findIndex (\<lambda>msg. msg_id msg = sid) (prev @ [m]) = Some (length prev)"
    by (auto intro!: findIndex_append_new)
  then show ?thesis by (simp add: updateMessage_def)
qed

text \<open>The text the streamed tokens add up to: empty and undefined tokens add nothing.\<close>

lemma fold_appendToken:
  assumes "\<forall>x \<in> set prev. msg_id x \<noteq> sid" and "msg_id m = sid" and "messages st = prev @ [m]"
  shows "fold (onData (appendToken sid)) evs st =
           st\<lparr>messages := prev @ [m\<lparr>msg_text := msg_text m @ concat (map orEmpty evs)\<rparr>]\<rparr>"
  using assms
proof (induction evs arbitrary: st m)
  case Nil
  then show ?case by simp
next
  case (Cons d evs)
  let ?m' = "m\<lparr>msg_text := msg_text m @ orEmpty d\<rparr>"
  have step: "onData (appendToken sid) d st = st\<lparr>messages := prev @ [?m']\<rparr>"
    using Cons.prems by (simp add: onData_def appendToken_def updateMessage_last)
  have "fold (onData (appendToken sid)) evs (st\<lparr>messages := prev @ [?m']\<rparr>) =
      (st\<lparr>messages := prev @ [?m']\<rparr>)\<lparr>messages := prev @ [?m'\<lparr>msg_text := msg_text ?m' @ concat (map orEmpty evs)\<rparr>]\<rparr>"
    using Cons.prems by (intro Cons.IH) simp_all
  with step show ?case by simp
qed

lemma createCompletion_unfold:
  assumes fresh: "\<forall>x \<in> set (messages st). msg_id x \<noteq> makeId (fst now) (increment (messageIdCounter st))"
  shows "createCompletion ctx systemPrompt history now message st =
     (let sid = makeId (fst now) (increment (messageIdCounter st));
          run = ctx (fullPrompt systemPrompt history message);
          streamed = \<lparr>msg_id = sid, msg_text = concat (map orEmpty (events run)),
                       isUser = False, timestamp = snd now\<rparr>;
          st3 = st\<lparr>messages := messages st @ [streamed], isLoading := True, error := None,
                   messageIdCounter := increment (messageIdCounter st)\<rparr>
      in case outcome run of
           Inl err \<Rightarrow> (None, st3\<lparr>error := Some (errorText err), isLoading := False\<rparr>)
         | Inr t \<Rightarrow>
             (let response = (if cleanResponse (orEmpty t) \<noteq> [] then cleanResponse (orEmpty t)
                              else str ''No response generated'')
              in (Some response,
                  st3\<lparr>messages := messages st @ [streamed\<lparr>msg_text := response\<rparr>],
                      isLoading := False\<rparr>)))"
proof -
  let ?sid = "makeId (fst now) (increment (messageIdCounter st))"
  let ?run = "ctx (fullPrompt systemPrompt history message)"
  let ?m0 = "\<lparr>msg_id = ?sid, msg_text = [], isUser = False, timestamp = snd now\<rparr>"
  let ?st2 = "st\<lparr>isLoading := True, error := None, messages := messages st @ [?m0],
                 messageIdCounter := increment (messageIdCounter st)\<rparr>"
  let ?streamed = "\<lparr>msg_id = ?sid, msg_text = concat (map orEmpty (events ?run)),
                       isUser = False, timestamp = snd now\<rparr>"
  obtain result st3 where sm: "sendMessage ctx (fullPrompt systemPrompt history message)
      (appendToken ?sid) ?st2 = (result, st3)"
    by (cases "sendMessage ctx (fullPrompt systemPrompt history message) (appendToken ?sid) ?st2")
  have "st3 = fold (onData (appendToken ?sid)) (events ?run) ?st2"
    using sm sendMessage_state [of ctx "fullPrompt systemPrompt history message" "appendToken ?sid" ?st2]
    by simp
  also have "\<dots> = ?st2\<lparr>messages := messages st @ [?m0\<lparr>msg_text := msg_text ?m0 @ concat (map orEmpty (events ?run))\<rparr>]\<rparr>"
    using fresh by (intro fold_appendToken) simp_all
  finally have st3: "st3 = st\<lparr>messages := messages st @ [?streamed], isLoading := True, error := None,
                   messageIdCounter := increment (messageIdCounter st)\<rparr>"
    by simp
  have res: "result = (case outcome ?run of
        Inl err \<Rightarrow> Inl err
      | Inr t \<Rightarrow> Inr (if cleanResponse (orEmpty t) \<noteq> [] then cleanResponse (orEmpty t)
                       else str ''No response generated''))"
    using sm sendMessage_result [of ctx "fullPrompt systemPrompt history message" "appendToken ?sid" ?st2]
    by simp
  have truthy: "\<And>r. result = Inr r \<Longrightarrow> r \<noteq> [] \<and> trim r \<noteq> []"
    using sm sendMessage_truthy [of ctx "fullPrompt systemPrompt history message" "appendToken ?sid" ?st2]
    by auto
  have upd: "\<And>r. updateMessage ?sid (\<lambda>t. r) (messages st @ [?streamed]) =
      messages st @ [?streamed\<lparr>msg_text := r\<rparr>]"
    using fresh by (subst updateMessage_last) simp_all
  show ?thesis
  proof (cases result)
    case (Inl err)
    with res have "outcome ?run = Inl err" by (simp split: sum.splits)
    with Inl sm st3 show ?thesis
      by (simp add: createCompletion_def Let_def generateId_def)
  next
    case (Inr r)
    with res obtain t where o: "outcome ?run = Inr t"
      and r: "r = (if cleanResponse (orEmpty t) \<noteq> [] then cleanResponse (orEmpty t)
                       else str ''No response generated'')"
      by (auto split: sum.splits)
    from truthy [OF Inr] have "r \<noteq> []" "trim r \<noteq> []" by simp_all
    with Inr sm st3 o r upd [of r] show ?thesis
      by (simp add: createCompletion_def Let_def generateId_def)
  qed
qed

text \<open>
  C7. When the native completion call throws, \<open>createCompletion\<close> returns null, the
  error state holds the message of the thrown error (a fixed text for a thrown value
  that is no \<open>Error\<close>), and the streaming message stays in the list with the text of
  the tokens received so far. When the call returns and the cleaned text is empty, the
  placeholder is returned and shown, and the error state stays empty. The identifier of
  the streaming message is assumed new in the list (see C10).
\<close>

theorem C7_completion_failure:
  assumes "\<forall>x \<in> set (messages st). msg_id x \<noteq> makeId (fst now) (increment (messageIdCounter st))"
  shows "(outcome (ctx (fullPrompt systemPrompt history message)) = Inl err \<longrightarrow>
            createCompletion ctx systemPrompt history now message st =
              (None,
               st\<lparr>messages := messages st @
                     [\<lparr>msg_id = makeId (fst now) (increment (messageIdCounter st)),
                       msg_text = concat (map orEmpty (events (ctx (fullPrompt systemPrompt history message)))),
                       isUser = False, timestamp = snd now\<rparr>],
                   isLoading := False,
                   error := Some (case err of Error m \<Rightarrow> m | NonError \<Rightarrow> str ''Unknown error occurred''),
                   messageIdCounter := increment (messageIdCounter st)\<rparr>))
       \<and> (outcome (ctx (fullPrompt systemPrompt history message)) = Inr t
            \<and> cleanResponse (orEmpty t) = [] \<longrightarrow>
            createCompletion ctx systemPrompt history now message st =
              (Some (str ''No response generated''),
               st\<lparr>messages := messages st @
                     [\<lparr>msg_id = makeId (fst now) (increment (messageIdCounter st)),
                       msg_text = str ''No response generated'',
                       isUser = False, timestamp = snd now\<rparr>],
                   isLoading := False,
                   error := None,
                   messageIdCounter := increment (messageIdCounter st)\<rparr>))"
  by (simp add: createCompletion_unfold [OF assms] Let_def errorText_def)

lemma fold_appendToken_error:
  "error (fold (onData (appendToken sid)) evs st) = error st"
  by (induction evs arbitrary: st) (simp_all add: onData_def appendToken_def)

lemma createCompletion_resolved:
  assumes "outcome (ctx (fullPrompt systemPrompt history message)) = Inr t"
  shows "fst (createCompletion ctx systemPrompt history now message st) =
          Some (if cleanResponse (orEmpty t) \<noteq> [] then cleanResponse (orEmpty t)
                else str ''No response generated'')"
    and "error (snd (createCompletion ctx systemPrompt history now message st)) = None"
proof -
  let ?sid = "makeId (fst now) (increment (messageIdCounter st))"
  let ?p = "fullPrompt systemPrompt history message"
  let ?st2 = "st\<lparr>isLoading := True, error := None,
                 messages := messages st @ [\<lparr>msg_id = ?sid, msg_text = [], isUser = False, timestamp = snd now\<rparr>],
                 messageIdCounter := increment (messageIdCounter st)\<rparr>"
  let ?r = "if cleanResponse (orEmpty t) \<noteq> [] then cleanResponse (orEmpty t)
                else str ''No response generated''"
  obtain result st3 where sm: "sendMessage ctx ?p (appendToken ?sid) ?st2 = (result, st3)"
    by (cases "sendMessage ctx ?p (appendToken ?sid) ?st2")
  have res: "result = Inr ?r"
    using sm assms sendMessage_result [of ctx ?p "appendToken ?sid" ?st2] by simp
  then have truthy: "?r \<noteq> [] \<and> trim ?r = ?r"
    using sm sendMessage_truthy [of ctx ?p "appendToken ?sid" ?st2 ?r] by simp
  have "st3 = fold (onData (appendToken ?sid)) (events (ctx ?p)) ?st2"
    using sm sendMessage_state [of ctx ?p "appendToken ?sid" ?st2] by simp
  then have err: "error st3 = None"
    by (simp add: fold_appendToken_error)
  from truthy have t2: "trim ?r \<noteq> []" by metis
  show "fst (createCompletion ctx systemPrompt history now message st) = Some ?r"
    using sm res truthy t2 by (simp add: createCompletion_def Let_def generateId_def)
  show "error (snd (createCompletion ctx systemPrompt history now message st)) = None"
    using sm res truthy t2 err by (simp add: createCompletion_def Let_def generateId_def)
qed

text \<open>
  C9. A string that \<open>sendMessage\<close> resolves with is not empty and is its own trim, so
  it does not trim to the empty string: it is the cleaned text, or the placeholder when
  the cleaned text is empty. Whenever the native call returns, \<open>createCompletion\<close>
  therefore returns that string and leaves the error state empty: the branch that
  throws on an empty response is never taken.
\<close>

theorem C9_empty_response_unreachable:
  "(fst (sendMessage ctx prompt onToken s) = Inr r \<longrightarrow> r \<noteq> [] \<and> trim r = r \<and> trim r \<noteq> [])
   \<and> (outcome (ctx prompt) = Inr t \<longrightarrow>
        fst (sendMessage ctx prompt onToken s) =
          Inr (if cleanResponse (orEmpty t) \<noteq> [] then cleanResponse (orEmpty t)
               else str ''No response generated''))
   \<and> (outcome (ctx (fullPrompt systemPrompt history message)) = Inr t \<longrightarrow>
        fst (createCompletion ctx systemPrompt history now message st) =
          Some (if cleanResponse (orEmpty t) \<noteq> [] then cleanResponse (orEmpty t)
                else str ''No response generated'')
        \<and> error (snd (createCompletion ctx systemPrompt history now message st)) = None)"
proof -
  have a: "fst (sendMessage ctx prompt onToken s) = Inr r \<longrightarrow> r \<noteq> [] \<and> trim r = r \<and> trim r \<noteq> []"
    using sendMessage_truthy [of ctx prompt onToken s r] by auto
  have b: "outcome (ctx prompt) = Inr t \<longrightarrow>
        fst (sendMessage ctx prompt onToken s) =
          Inr (if cleanResponse (orEmpty t) \<noteq> [] then cleanResponse (orEmpty t)
               else str ''No response generated'')"
    by (simp add: sendMessage_result)
  have c: "outcome (ctx (fullPrompt systemPrompt history message)) = Inr t \<longrightarrow>
        fst (createCompletion ctx systemPrompt history now message st) =
          Some (if cleanResponse (orEmpty t) \<noteq> [] then cleanResponse (orEmpty t)
                else str ''No response generated'')
        \<and> error (snd (createCompletion ctx systemPrompt history now message st)) = None"
    using createCompletion_resolved [of ctx systemPrompt history message t now st] by blast
  from a b c show ?thesis by blast
qed

lemmas cleanResponse_eval =
  str_def cleanResponse_def trim_def isWhiteSpace_def think_re_def limitThinkingPass_def
  removeThinking_def removeRedacted_def redacted_re_def removeSpecial_def special_re_def
  removeEndOfSentence_def eos_re_def removeEndTokens_def endtok_re_def normalizeNewlines_def
  newlines_re_def normalizeSpaces_def hspace_re_def isHSpace_def dot_def isLineTerminator_def
  anyChar_def r_accept_def canonicalize_def limitThinking_def

lemmas makeId_eval = makeId_def numberToString_def increment_def str_def digits.simps

theorem C7_completion_failure_witness:
  "str ''msg_1_1'' \<noteq> makeId (fst (5, 6)) (increment 1)
   \<and> createCompletion
        (\<lambda>p. \<lparr>events = [Some (str ''Hel''), None, Some [], Some (str ''lo'')],
               outcome = Inl (Error (str ''boom''))\<rparr>)
        (str ''S'') [] (5, 6) (str ''hi'')
        \<lparr>messages = [\<lparr>msg_id = str ''msg_1_1'', msg_text = str ''Welcome'',
                       isUser = False, timestamp = 1\<rparr>],
          isLoading = False, error = None, messageIdCounter = 1\<rparr>
      = (None,
         \<lparr>messages = [\<lparr>msg_id = str ''msg_1_1'', msg_text = str ''Welcome'',
                        isUser = False, timestamp = 1\<rparr>,
                       \<lparr>msg_id = str ''msg_5_2'', msg_text = str ''Hello'',
                        isUser = False, timestamp = 6\<rparr>],
           isLoading = False, error = Some (str ''boom''), messageIdCounter = 2\<rparr>)
   \<and> createCompletion
        (\<lambda>p. \<lparr>events = [Some (str ''<think>''), Some (str ''hm</think>'')],
               outcome = Inr (Some (str ''<think>hm</think>''))\<rparr>)
        (str ''S'') [] (5, 6) (str ''hi'')
        \<lparr>messages = [\<lparr>msg_id = str ''msg_1_1'', msg_text = str ''Welcome'',
                       isUser = False, timestamp = 1\<rparr>],
          isLoading = False, error = None, messageIdCounter = 1\<rparr>
      = (Some (str ''No response generated''),
         \<lparr>messages = [\<lparr>msg_id = str ''msg_1_1'', msg_text = str ''Welcome'',
                        isUser = False, timestamp = 1\<rparr>,
                       \<lparr>msg_id = str ''msg_5_2'', msg_text = str ''No response generated'',
                        isUser = False, timestamp = 6\<rparr>],
           isLoading = False, error = None, messageIdCounter = 2\<rparr>)"
proof -
  let ?st = "\<lparr>messages = [\<lparr>msg_id = str ''msg_1_1'', msg_text = str ''Welcome'',
                       isUser = False, timestamp = 1\<rparr>],
          isLoading = False, error = None, messageIdCounter = 1\<rparr>"
  have h: "\<forall>x \<in> set (messages ?st). msg_id x \<noteq> makeId (fst (5, 6)) (increment (messageIdCounter ?st))"
    by (simp add: makeId_eval)
  have c: "cleanResponse (orEmpty (Some (str ''<think>hm</think>''))) = []"
    by (simp add: orEmpty_def cleanResponse_eval)
  have i: "makeId 5 (increment 1) = str ''msg_5_2''"
    by (simp add: makeId_eval)
  from h c i
    C7_completion_failure [OF h, of "\<lambda>p. \<lparr>events = [Some (str ''Hel''), None, Some [], Some (str ''lo'')],
               outcome = Inl (Error (str ''boom''))\<rparr>" "str ''S''" "[]" "str ''hi''" "Error (str ''boom'')"]
    C7_completion_failure [OF h, of "\<lambda>p. \<lparr>events = [Some (str ''<think>''), Some (str ''hm</think>'')],
               outcome = Inr (Some (str ''<think>hm</think>''))\<rparr>" "str ''S''" "[]" "str ''hi''" _
               "Some (str ''<think>hm</think>'')"]
  show ?thesis
    by (simp add: orEmpty_def increment_def) (simp add: str_def)
qed

theorem C9_empty_response_unreachable_witness:
  "fst (sendMessage (\<lambda>p. \<lparr>events = [], outcome = Inr (Some (str '' <|im_end|> ''))\<rparr>) (str ''q'')
          (\<lambda>t s. s) (0::nat)) = Inr (str ''No response generated'')
   \<and> trim (str ''No response generated'') \<noteq> []
   \<and> error (snd (createCompletion
        (\<lambda>p. \<lparr>events = [], outcome = Inr (Some (str '' <|im_end|> ''))\<rparr>)
        (str ''S'') [] (5, 6) (str ''hi'')
        \<lparr>messages = [], isLoading = False, error = None, messageIdCounter = 0\<rparr>)) = None"
proof -
  have c: "cleanResponse (orEmpty (Some (str '' <|im_end|> ''))) = []"
    by (simp add: orEmpty_def cleanResponse_eval)
  from c
    C9_empty_response_unreachable [of "\<lambda>p. \<lparr>events = [], outcome = Inr (Some (str '' <|im_end|> ''))\<rparr>"
      "str ''q''" "\<lambda>t s. s" "0::nat" "str ''No response generated''" "Some (str '' <|im_end|> '')"
      "str ''S''" "[]" "str ''hi''" "(5, 6)"
      "\<lparr>messages = [], isLoading = False, error = None, messageIdCounter = 0\<rparr>"]
  show ?thesis by simp
qed

subsection \<open>Model provisioning\<close>

lemma downloadAndLoad_trace:
  "trace (downloadAndLoad env dir model st) =
     trace st @ [Download (url model) (getModelPath dir model)]
     @ (case downloadAsync env (url model) (getModelPath dir model) of
          Inr (Some (uri, content)) \<Rightarrow> if uri = [] then [] else [LoadModel uri]
        | _ \<Rightarrow> [])"
  by (simp add: downloadAndLoad_def download_def loadModel_def failWith_def orEmpty_def Let_def
      split: sum.splits option.splits prod.splits)

lemma downloadAndLoad_files:
  "files (downloadAndLoad env dir model st) =
     (case downloadAsync env (url model) (getModelPath dir model) of
        Inr (Some (uri, content)) \<Rightarrow> (files st)(uri \<mapsto> content)
      | _ \<Rightarrow> files st)"
  by (simp add: downloadAndLoad_def download_def loadModel_def failWith_def orEmpty_def Let_def
      split: sum.splits option.splits prod.splits)

lemma downloadAndLoad_context:
  assumes "downloadAsync env (url model) (getModelPath dir model) = Inr (Some (uri, content))"
    and "uri \<noteq> []"
    and "initLlama env uri (Some content) = Inr handle"
  shows "llamaContext (downloadAndLoad env dir model st) = Some handle"
    and "loading (downloadAndLoad env dir model st) = False"
    and "app_error (downloadAndLoad env dir model st) = app_error st"
  using assms
  by (simp_all add: downloadAndLoad_def download_def loadModel_def failWith_def orEmpty_def Let_def)

lemma downloadAndLoad_no_uri:
  assumes "downloadAsync env (url model) (getModelPath dir model) = Inr None
         \<or> (\<exists>content. downloadAsync env (url model) (getModelPath dir model) = Inr (Some ([], content)))"
  shows "app_error (downloadAndLoad env dir model st) = Some (str ''Download failed - no URI returned'')"
    and "llamaContext (downloadAndLoad env dir model st) = llamaContext st"
  using assms
  by (auto simp: downloadAndLoad_def download_def failWith_def orEmpty_def errorText_def Let_def)

text \<open>
  C6. When a file exists at the model's path and loading it throws, \<open>downloadModel\<close>
  calls, in this order: the existence check, the load of the local file, the deletion
  of the local file, the download from the model's URL to the same path and, when the
  download returns a result with a non-empty \<open>uri\<close>, the load of the file at that
  \<open>uri\<close>. When the deletion does not throw, the local file is gone before the download
  writes its result. When the downloaded file loads, its context is the screen's
  context and no error is set. When the download returns no result or an empty
  \<open>uri\<close>, nothing more is loaded and the error is that no URI was returned.
\<close>

theorem C6_corrupt_file_redownload:
  assumes "files st (getModelPath dir model) = Some old"
    and "initLlama env (getModelPath dir model) (Some old) = Inl e"
  shows "trace (downloadModel env dir model st) =
           trace st @ [GetInfo (getModelPath dir model), LoadModel (getModelPath dir model),
                       DeleteFile (getModelPath dir model),
                       Download (url model) (getModelPath dir model)]
           @ (case downloadAsync env (url model) (getModelPath dir model) of
                Inr (Some (uri, content)) \<Rightarrow> if uri = [] then [] else [LoadModel uri]
              | _ \<Rightarrow> [])
       \<and> (deleteThrows env = None \<longrightarrow>
            files (downloadModel env dir model st) =
              (case downloadAsync env (url model) (getModelPath dir model) of
                 Inr (Some (uri, content)) \<Rightarrow> ((files st)(getModelPath dir model := None))(uri \<mapsto> content)
               | _ \<Rightarrow> (files st)(getModelPath dir model := None)))
       \<and> (\<forall>uri content handle.
            downloadAsync env (url model) (getModelPath dir model) = Inr (Some (uri, content))
            \<and> uri \<noteq> [] \<and> initLlama env uri (Some content) = Inr handle \<longrightarrow>
            llamaContext (downloadModel env dir model st) = Some handle
            \<and> loading (downloadModel env dir model st) = False
            \<and> app_error (downloadModel env dir model st) = app_error st)
       \<and> (downloadAsync env (url model) (getModelPath dir model) = Inr None
            \<or> (\<exists>content. downloadAsync env (url model) (getModelPath dir model) = Inr (Some ([], content)))
            \<longrightarrow>
            app_error (downloadModel env dir model st) = Some (str ''Download failed - no URI returned'')
            \<and> llamaContext (downloadModel env dir model st) = llamaContext st)"
proof -
  let ?p = "getModelPath dir model"
  let ?st4 = "st\<lparr>status := str ''Loading existing model...'',
                 trace := trace st @ [GetInfo ?p, LoadModel ?p]\<rparr>"
  let ?st5 = "snd (deleteAsync env ?p ?st4)"
  have dm: "downloadModel env dir model st = downloadAndLoad env dir model ?st5"
    using assms by (simp add: downloadModel_def loadModel_def Let_def split: prod.splits)
  have tr5: "trace ?st5 = trace st @ [GetInfo ?p, LoadModel ?p, DeleteFile ?p]"
    by (simp add: deleteAsync_def split: option.splits)
  have f5: "deleteThrows env = None \<longrightarrow> files ?st5 = (files st)(?p := None)"
    by (simp add: deleteAsync_def)
  have e5: "app_error ?st5 = app_error st"
    by (simp add: deleteAsync_def split: option.splits)
  have c5: "llamaContext ?st5 = llamaContext st"
    by (simp add: deleteAsync_def split: option.splits)
  have a: "trace (downloadModel env dir model st) =
           trace st @ [GetInfo ?p, LoadModel ?p, DeleteFile ?p, Download (url model) ?p]
           @ (case downloadAsync env (url model) ?p of
                Inr (Some (uri, content)) \<Rightarrow> if uri = [] then [] else [LoadModel uri]
              | _ \<Rightarrow> [])"
    by (simp add: dm downloadAndLoad_trace tr5)
  have b: "deleteThrows env = None \<longrightarrow>
            files (downloadModel env dir model st) =
              (case downloadAsync env (url model) ?p of
                 Inr (Some (uri, content)) \<Rightarrow> ((files st)(?p := None))(uri \<mapsto> content)
               | _ \<Rightarrow> (files st)(?p := None))"
  proof
    assume "deleteThrows env = None"
    with f5 have "files ?st5 = (files st)(?p := None)" by blast
    then show "files (downloadModel env dir model st) =
              (case downloadAsync env (url model) ?p of
                 Inr (Some (uri, content)) \<Rightarrow> ((files st)(?p := None))(uri \<mapsto> content)
               | _ \<Rightarrow> (files st)(?p := None))"
      by (simp add: dm downloadAndLoad_files split: sum.splits option.splits prod.splits)
  qed
  have c: "\<forall>uri content handle.
            downloadAsync env (url model) ?p = Inr (Some (uri, content))
            \<and> uri \<noteq> [] \<and> initLlama env uri (Some content) = Inr handle \<longrightarrow>
            llamaContext (downloadModel env dir model st) = Some handle
            \<and> loading (downloadModel env dir model st) = False
            \<and> app_error (downloadModel env dir model st) = app_error st"
    using e5 by (auto simp: dm downloadAndLoad_context)
  have d: "downloadAsync env (url model) ?p = Inr None
            \<or> (\<exists>content. downloadAsync env (url model) ?p = Inr (Some ([], content)))
            \<longrightarrow>
            app_error (downloadModel env dir model st) = Some (str ''Download failed - no URI returned'')
            \<and> llamaContext (downloadModel env dir model st) = llamaContext st"
    using c5 downloadAndLoad_no_uri [of env model dir ?st5] by (simp add: dm)
  from a b c d show ?thesis by blast
qed

theorem C6_corrupt_file_redownload_witness:
  "files \<lparr>llamaContext = None, loading = True, app_error = None, status = str ''Initializing...'',
          files = [str ''/doc/model_m.gguf'' \<mapsto> 0], trace = []\<rparr>
     (getModelPath (str ''/doc/'') \<lparr>model_id = str ''m'', model_name = str ''M'', url = str ''https://x/m.gguf''\<rparr>)
     = Some 0
   \<and> trace (downloadModel
        \<lparr>initLlama = (\<lambda>path content. if content = Some 1 then Inr 7 else Inl (Error (str ''bad file''))),
         deleteThrows = None,
         downloadAsync = (\<lambda>source target. Inr (Some (target, 1)))\<rparr>
        (str ''/doc/'') \<lparr>model_id = str ''m'', model_name = str ''M'', url = str ''https://x/m.gguf''\<rparr>
        \<lparr>llamaContext = None, loading = True, app_error = None, status = str ''Initializing...'',
         files = [str ''/doc/model_m.gguf'' \<mapsto> 0], trace = []\<rparr>)
      = [GetInfo (str ''/doc/model_m.gguf''), LoadModel (str ''/doc/model_m.gguf''),
         DeleteFile (str ''/doc/model_m.gguf''),
         Download (str ''https://x/m.gguf'') (str ''/doc/model_m.gguf''),
         LoadModel (str ''/doc/model_m.gguf'')]
   \<and> llamaContext (downloadModel
        \<lparr>initLlama = (\<lambda>path content. if content = Some 1 then Inr 7 else Inl (Error (str ''bad file''))),
         deleteThrows = None,
         downloadAsync = (\<lambda>source target. Inr (Some (target, 1)))\<rparr>
        (str ''/doc/'') \<lparr>model_id = str ''m'', model_name = str ''M'', url = str ''https://x/m.gguf''\<rparr>
        \<lparr>llamaContext = None, loading = True, app_error = None, status = str ''Initializing...'',
         files = [str ''/doc/model_m.gguf'' \<mapsto> 0], trace = []\<rparr>) = Some 7
   \<and> trace (downloadModel
        \<lparr>initLlama = (\<lambda>path content. if content = Some 1 then Inr 7 else Inl (Error (str ''bad file''))),
         deleteThrows = None,
         downloadAsync = (\<lambda>source target. Inr (Some ([], 1)))\<rparr>
        (str ''/doc/'') \<lparr>model_id = str ''m'', model_name = str ''M'', url = str ''https://x/m.gguf''\<rparr>
        \<lparr>llamaContext = None, loading = True, app_error = None, status = str ''Initializing...'',
         files = [str ''/doc/model_m.gguf'' \<mapsto> 0], trace = []\<rparr>)
      = [GetInfo (str ''/doc/model_m.gguf''), LoadModel (str ''/doc/model_m.gguf''),
         DeleteFile (str ''/doc/model_m.gguf''),
         Download (str ''https://x/m.gguf'') (str ''/doc/model_m.gguf'')]
   \<and> app_error (downloadModel
        \<lparr>initLlama = (\<lambda>path content. if content = Some 1 then Inr 7 else Inl (Error (str ''bad file''))),
         deleteThrows = None,
         downloadAsync = (\<lambda>source target. Inr (Some ([], 1)))\<rparr>
        (str ''/doc/'') \<lparr>model_id = str ''m'', model_name = str ''M'', url = str ''https://x/m.gguf''\<rparr>
        \<lparr>llamaContext = None, loading = True, app_error = None, status = str ''Initializing...'',
         files = [str ''/doc/model_m.gguf'' \<mapsto> 0], trace = []\<rparr>)
      = Some (str ''Download failed - no URI returned'')"
proof -
  let ?init = "\<lambda>(path::jsstring) content. if content = Some (1::nat) then Inr (7::nat) else Inl (Error (str ''bad file''))"
  let ?env = "\<lparr>initLlama = ?init, deleteThrows = None,
         downloadAsync = (\<lambda>source target. Inr (Some (target, 1::nat)))\<rparr>"
  let ?bad = "\<lparr>initLlama = ?init, deleteThrows = None,
         downloadAsync = (\<lambda>(source::jsstring) (target::jsstring). Inr (Some ([]::jsstring, 1::nat)))\<rparr>"
  let ?model = "\<lparr>model_id = str ''m'', model_name = str ''M'', url = str ''https://x/m.gguf''\<rparr>"
  let ?st = "\<lparr>llamaContext = None, loading = True, app_error = None, status = str ''Initializing...'',
         files = [str ''/doc/model_m.gguf'' \<mapsto> 0::nat], trace = []\<rparr>"
  have p: "getModelPath (str ''/doc/'') ?model = str ''/doc/model_m.gguf''"
    by (simp add: getModelPath_def str_def)
  have ne: "str ''/doc/model_m.gguf'' \<noteq> []" by (simp add: str_def)
  have h1: "files ?st (getModelPath (str ''/doc/'') ?model) = Some 0"
    by (simp add: p)
  have h2: "initLlama ?env (getModelPath (str ''/doc/'') ?model) (Some 0) = Inl (Error (str ''bad file''))"
    by simp
  have h3: "initLlama ?bad (getModelPath (str ''/doc/'') ?model) (Some 0) = Inl (Error (str ''bad file''))"
    by simp
  from C6_corrupt_file_redownload [OF h1 h2] ne
  have a: "trace (downloadModel ?env (str ''/doc/'') ?model ?st)
      = [GetInfo (str ''/doc/model_m.gguf''), LoadModel (str ''/doc/model_m.gguf''),
         DeleteFile (str ''/doc/model_m.gguf''),
         Download (str ''https://x/m.gguf'') (str ''/doc/model_m.gguf''),
         LoadModel (str ''/doc/model_m.gguf'')]"
    and b: "llamaContext (downloadModel ?env (str ''/doc/'') ?model ?st) = Some 7"
    by (simp_all add: p)
  from C6_corrupt_file_redownload [OF h1 h3]
  have c: "trace (downloadModel ?bad (str ''/doc/'') ?model ?st)
      = [GetInfo (str ''/doc/model_m.gguf''), LoadModel (str ''/doc/model_m.gguf''),
         DeleteFile (str ''/doc/model_m.gguf''),
         Download (str ''https://x/m.gguf'') (str ''/doc/model_m.gguf'')]"
    and d: "app_error (downloadModel ?bad (str ''/doc/'') ?model ?st)
      = Some (str ''Download failed - no URI returned'')"
    by (simp_all add: p)
  from h1 a b c d show ?thesis by (simp only: p)
qed

subsection \<open>Token cleanup on concrete responses\<close>

lemmas cleanResponse_basic_eval =
  cleanResponse_basic_def whitespace_re_def normalizeWhitespace_def cleanResponse_eval

text \<open>
  C2, as stated, fails. Removing the inner span of this response puts a new span
  together, which the same scan does not see: the output is a span.
\<close>

theorem C2_span_left_in_output:
  "cleanResponse (str ''<thi<think></think>nk>x</think>'') = str ''<think>x</think>''
   \<and> think_re (cleanResponse (str ''<thi<think></think>nk>x</think>'')) = Some 16"
  by (simp add: cleanResponse_eval)

text \<open>
  C3, as stated, fails. Removing the first marker of this response puts a second marker
  together; cleaning the result again removes it. The earlier version of the file
  behaves in the same way.
\<close>

theorem C3_not_idempotent:
  "cleanResponse (cleanResponse (str ''<<|a|>|b|>'')) \<noteq> cleanResponse (str ''<<|a|>|b|>'')
   \<and> cleanResponse (str ''<<|a|>|b|>'') = str ''<|b|>''
   \<and> cleanResponse (cleanResponse (str ''<<|a|>|b|>'')) = []
   \<and> cleanResponse_basic (str ''<<|a|>|b|>'') = str ''<|b|>''
   \<and> cleanResponse_basic (cleanResponse_basic (str ''<<|a|>|b|>'')) = []"
  by (simp add: cleanResponse_basic_eval)

text \<open>
  C5, as stated, fails. Three newlines at the start of a response are collapsed to two
  and then removed by the final trim: none is left.
\<close>

theorem C5_leading_newlines_removed:
  "cleanResponse ([10, 10, 10] @ str ''hello'') = str ''hello''
   \<and> cleanResponse ([10, 10, 10] @ str ''hello'') \<noteq> [10, 10] @ str ''hello''"
  by (simp add: cleanResponse_eval)

subsection \<open>Global replacement\<close>

lemma replaceAll_skip:
  "k \<le> length s \<Longrightarrow> replaceAll m f k s = replaceAll m f 0 (drop k s)"
proof (induction s arbitrary: k)
  case Nil
  then show ?case by simp
next
  case (Cons c cs)
  then show ?case by (cases k) simp_all
qed

lemma replaceAll_match:
  assumes "m (c # cs) = Some (Suc n)" and "n \<le> length cs"
  shows "replaceAll m f 0 (c # cs) = f (take (Suc n) (c # cs)) @ replaceAll m f 0 (drop n cs)"
proof -
  from assms(2) have "replaceAll m f n cs = replaceAll m f 0 (drop n cs)"
    by (rule replaceAll_skip)
  with assms(1) show ?thesis by simp
qed

lemma replaceAll_prefix:
  assumes "\<forall>i < length u. m (drop i u @ v) = None"
  shows "replaceAll m f 0 (u @ v) = u @ replaceAll m f 0 v"
  using assms
proof (induction u)
  case Nil
  then show ?case by simp
next
  case (Cons c u)
  from Cons.prems have "m (drop 0 (c # u) @ v) = None" by blast
  then have h: "m (c # u @ v) = None" by simp
  have "\<forall>i < length u. m (drop i u @ v) = None"
  proof (intro allI impI)
    fix i assume "i < length u"
    then have "Suc i < length (c # u)" by simp
    with Cons.prems have "m (drop (Suc i) (c # u) @ v) = None" by blast
    then show "m (drop i u @ v) = None" by simp
  qed
  with Cons.IH h show ?case by simp
qed

lemma replaceAll_id:
  assumes "\<forall>i \<le> length s. m (drop i s) = None"
  shows "replaceAll m f 0 s = s"
proof -
  from assms have "m [] = None" by (metis drop_all order_refl)
  moreover from assms have "\<forall>i < length s. m (drop i s @ []) = None" by simp
  ultimately show ?thesis using replaceAll_prefix [of s m "[]" f] by simp
qed

lemma replaceAll_split:
  assumes nil: "m [] = None"
    and sep: "\<And>t. m (x # t) = None"
    and loc: "\<And>t. m (t @ x # v) = m t"
    and len: "\<And>t n. m t = Some n \<Longrightarrow> n \<le> length t"
  shows "replaceAll m f 0 (u @ x # v) = replaceAll m f 0 u @ x # replaceAll m f 0 v"
proof (induction u rule: length_induct)
  case (1 u)
  show ?case
  proof (cases u)
    case Nil
    then show ?thesis by (simp add: nil sep)
  next
    case (Cons c cs)
    have same: "m (c # cs @ x # v) = m (c # cs)" using loc [of "c # cs"] by simp
    have "length cs < length u" using Cons by simp
    with 1 have ih: "replaceAll m f 0 (cs @ x # v) = replaceAll m f 0 cs @ x # replaceAll m f 0 v"
      by blast
    show ?thesis
    proof (cases "m (c # cs)")
      case None
      with same Cons ih show ?thesis by simp
    next
      case (Some n)
      show ?thesis
      proof (cases n)
        case 0
        with Some same Cons ih show ?thesis by simp
      next
        case (Suc k)
        from len [OF Some] Suc have k: "k \<le> length cs" by simp
        have "length (drop k cs) < length u" using Cons by simp
        with 1 have ih2: "replaceAll m f 0 (drop k cs @ x # v) =
            replaceAll m f 0 (drop k cs) @ x # replaceAll m f 0 v" by blast
        have "replaceAll m f 0 (c # cs @ x # v) =
            f (take (Suc k) (c # cs @ x # v)) @ replaceAll m f 0 (drop k (cs @ x # v))"
          using Some Suc same k by (intro replaceAll_match) simp_all
        also have "\<dots> = f (take (Suc k) (c # cs)) @ replaceAll m f 0 (drop k cs @ x # v)"
          using k by simp
        also have "\<dots> = f (take (Suc k) (c # cs)) @ replaceAll m f 0 (drop k cs) @ x # replaceAll m f 0 v"
          using ih2 by simp
        also have "\<dots> = replaceAll m f 0 (c # cs) @ x # replaceAll m f 0 v"
          using replaceAll_match [of m c cs k f] Some Suc k by simp
        finally show ?thesis using Cons by simp
      qed
    qed
  qed
qed

subsection \<open>What the matchers accept\<close>

lemma r_lit_prefix:
  "r_lit lit k s = (if prefix lit s then map_option (\<lambda>n. length lit + n) (k (drop (length lit) s)) else None)"
proof (induction lit arbitrary: s)
  case Nil
  show ?case by (cases "k s") simp_all
next
  case (Cons a lit)
  show ?case
  proof (cases s)
    case Nil
    then show ?thesis by simp
  next
    case (Cons c cs)
    with Cons.IH [of cs] show ?thesis
      by (simp add: option.map_comp comp_def)
  qed
qed

lemma r_char_Nil: "r_char p k [] = None"
  by simp

lemma r_greedy_accept: "r_greedy p r_accept s = Some (length (takeWhile p s))"
  by (induction s) (simp_all add: r_accept_def)

lemma r_char_greedy:
  "r_char p (r_greedy p r_accept) s =
     (if s \<noteq> [] \<and> p (hd s) then Some (length (takeWhile p s)) else None)"
  by (cases s) (simp_all add: r_greedy_accept)

subsection \<open>Collapsing spaces and tabs\<close>

lemma hspace_re_eq:
  "hspace_re s = (if s \<noteq> [] \<and> isHSpace (hd s) then Some (length (takeWhile isHSpace s)) else None)"
  by (simp add: hspace_re_def r_char_greedy)

lemma normalizeSpaces_Nil [simp]: "normalizeSpaces [] = []"
  by (simp add: normalizeSpaces_def hspace_re_eq)

lemma normalizeSpaces_Cons:
  "normalizeSpaces (c # cs) =
     (if isHSpace c then 32 # normalizeSpaces (dropWhile isHSpace cs)
      else c # normalizeSpaces cs)"
proof (cases "isHSpace c")
  case False
  then show ?thesis by (simp add: normalizeSpaces_def hspace_re_eq)
next
  case True
  let ?n = "length (takeWhile isHSpace cs)"
  have m: "hspace_re (c # cs) = Some (Suc ?n)" using True by (simp add: hspace_re_eq)
  have n: "?n \<le> length cs" by (rule length_takeWhile_le)
  have "replaceAll hspace_re (\<lambda>m. [32]) 0 (c # cs) =
      [32] @ replaceAll hspace_re (\<lambda>m. [32]) 0 (drop ?n cs)"
    using replaceAll_match [of hspace_re c cs ?n "\<lambda>m. [32]"] m n by simp
  with True show ?thesis by (simp add: normalizeSpaces_def dropWhile_eq_drop)
qed

lemma normalizeSpaces_split:
  assumes "\<not> isHSpace x"
  shows "normalizeSpaces (u @ x # v) = normalizeSpaces u @ x # normalizeSpaces v"
  unfolding normalizeSpaces_def
proof (rule replaceAll_split)
  show "hspace_re [] = None" by (simp add: hspace_re_eq)
  show "\<And>t. hspace_re (x # t) = None" using assms by (simp add: hspace_re_eq)
  show "\<And>t. hspace_re (t @ x # v) = hspace_re t"
  proof -
    fix t show "hspace_re (t @ x # v) = hspace_re t"
      using assms by (cases t) (simp_all add: hspace_re_eq takeWhile_tail)
  qed
  show "\<And>t n. hspace_re t = Some n \<Longrightarrow> n \<le> length t"
    by (auto simp: hspace_re_eq length_takeWhile_le split: if_splits)
qed

lemma normalizeSpaces_run:
  assumes "w \<noteq> []" and "\<forall>c \<in> set w. isHSpace c"
  shows "normalizeSpaces w = [32]"
proof -
  from assms obtain c cs where w: "w = c # cs" by (cases w) auto
  with assms have "dropWhile isHSpace cs = []" by simp
  then have "normalizeSpaces (dropWhile isHSpace cs) = []"
    by (simp only: normalizeSpaces_Nil)
  with w assms show ?thesis by (simp add: normalizeSpaces_Cons)
qed

lemma normalizeSpaces_id: "spacesOk s \<Longrightarrow> normalizeSpaces s = s"
proof (induction s)
  case Nil
  then show ?case by simp
next
  case (Cons c cs)
  then have ih: "normalizeSpaces cs = cs" by simp
  show ?case
  proof (cases "isHSpace c")
    case False
    with ih show ?thesis by (simp add: normalizeSpaces_Cons)
  next
    case True
    with Cons.prems have "c = 32" and "dropWhile isHSpace cs = cs"
      by (auto split: list.splits)
    with True ih show ?thesis by (simp add: normalizeSpaces_Cons)
  qed
qed

lemma normalizeSpaces_hd:
  "s \<noteq> [] \<Longrightarrow> \<not> isHSpace (hd s) \<Longrightarrow> normalizeSpaces s \<noteq> [] \<and> hd (normalizeSpaces s) = hd s"
  by (cases s) (simp_all add: normalizeSpaces_Cons)

lemma spacesOk_normalizeSpaces: "spacesOk (normalizeSpaces s)"
proof (induction s rule: length_induct)
  case (1 s)
  show ?case
  proof (cases s)
    case Nil
    then show ?thesis by simp
  next
    case (Cons c cs)
    show ?thesis
    proof (cases "isHSpace c")
      case False
      have "length cs < length s" using Cons by simp
      with 1 have "spacesOk (normalizeSpaces cs)" by blast
      with False Cons show ?thesis by (simp add: normalizeSpaces_Cons)
    next
      case True
      let ?r = "dropWhile isHSpace cs"
      have "length ?r \<le> length cs" by (rule length_dropWhile_le)
      then have "length ?r < length s" using Cons by simp
      with 1 have ok: "spacesOk (normalizeSpaces ?r)" by blast
      have nh: "case normalizeSpaces ?r of [] \<Rightarrow> True | d # ds \<Rightarrow> \<not> isHSpace d"
      proof (cases "?r = []")
        case True
        then have "normalizeSpaces ?r = []" by (simp only: normalizeSpaces_Nil)
        then show ?thesis by (simp only: list.case)
      next
        case False
        then have "\<not> isHSpace (hd ?r)" by (rule hd_dropWhile)
        with False normalizeSpaces_hd [of ?r] show ?thesis
          by (cases "normalizeSpaces ?r") auto
      qed
      from True Cons ok nh show ?thesis by (simp add: normalizeSpaces_Cons)
    qed
  qed
qed

lemma spacesOk_append: "spacesOk (u @ v) \<Longrightarrow> spacesOk u \<and> spacesOk v"
proof (induction u)
  case Nil
  then show ?case by simp
next
  case (Cons c u)
  then show ?case by (cases u) (auto split: list.splits if_splits)
qed

subsection \<open>Collapsing newlines\<close>

lemma lastNewline_None: "lastNewline w = None \<longleftrightarrow> 10 \<notin> set w"
  by (induction w) (auto split: option.splits)

lemma lastNewline_count: "lastNewline w = None \<longleftrightarrow> count_list w 10 = 0"
  by (simp add: lastNewline_None count_list_0_iff)

lemma lastNewline_le: "lastNewline w = Some n \<Longrightarrow> n \<le> length w"
  by (induction w arbitrary: n) (auto split: option.splits if_splits)

lemma lastNewline_pos: "lastNewline w = Some n \<Longrightarrow> 0 < n"
  by (cases w) (auto split: option.splits if_splits)

lemma lastNewline_rest: "lastNewline w = Some n \<Longrightarrow> 10 \<notin> set (drop n w)"
proof (induction w arbitrary: n)
  case Nil
  then show ?case by simp
next
  case (Cons c w)
  show ?case
  proof (cases "lastNewline w")
    case None
    with Cons.prems have "n = 1" by (simp split: if_splits)
    with None show ?thesis by (simp add: lastNewline_None)
  next
    case (Some k)
    with Cons.prems have "n = Suc k" by simp
    with Cons.IH [OF Some] show ?thesis by simp
  qed
qed

text \<open>The tail \<^verbatim>\<open>\s*\n\<close> of the pattern ends behind the last newline of the run of
  whitespace it starts in.\<close>

lemma greedy_newline:
  "r_greedy isWhiteSpace (r_char (\<lambda>c. c = 10) r_accept) t = lastNewline (takeWhile isWhiteSpace t)"
proof (induction t)
  case Nil
  then show ?case by simp
next
  case (Cons c cs)
  show ?case
  proof (cases "isWhiteSpace c")
    case True
    with Cons.IH show ?thesis
      by (cases "lastNewline (takeWhile isWhiteSpace cs)") (simp_all add: r_accept_def)
  next
    case False
    then have "c \<noteq> 10" by (auto simp: isWhiteSpace_def)
    with False show ?thesis by simp
  qed
qed

lemma greedy_newline_twice:
  "r_greedy isWhiteSpace
     (r_char (\<lambda>c. c = 10) (r_greedy isWhiteSpace (r_char (\<lambda>c. c = 10) r_accept))) t =
     (if 2 \<le> count_list (takeWhile isWhiteSpace t) 10
      then lastNewline (takeWhile isWhiteSpace t) else None)"
proof (induction t)
  case Nil
  then show ?case by simp
next
  case (Cons c cs)
  let ?w = "takeWhile isWhiteSpace cs"
  show ?case
  proof (cases "isWhiteSpace c")
    case False
    then have "c \<noteq> 10" by (auto simp: isWhiteSpace_def)
    with False show ?thesis by simp
  next
    case True
    show ?thesis
    proof (cases "2 \<le> count_list ?w 10")
      case two: True
      then have "lastNewline ?w \<noteq> None" by (simp add: lastNewline_count)
      then obtain n where "lastNewline ?w = Some n" by blast
      with True two Cons.IH show ?thesis by simp
    next
      case few: False
      show ?thesis
      proof (cases "lastNewline ?w")
        case None
        then have "count_list ?w 10 = 0" by (simp add: lastNewline_count)
        with None True few Cons.IH show ?thesis by (simp add: greedy_newline)
      next
        case (Some n)
        then have "count_list ?w 10 \<noteq> 0" using lastNewline_count [of ?w] by simp
        with few have "count_list ?w 10 = 1" by simp
        with Some True few Cons.IH show ?thesis by (simp add: greedy_newline)
      qed
    qed
  qed
qed

lemma newlines_re_Nil [simp]: "newlines_re [] = None"
  by (simp add: newlines_re_def)

lemma newlines_re_Cons:
  "newlines_re (c # cs) =
     (if c = 10 \<and> 2 \<le> count_list (takeWhile isWhiteSpace cs) 10
      then map_option Suc (lastNewline (takeWhile isWhiteSpace cs)) else None)"
  by (simp add: newlines_re_def greedy_newline_twice)

lemma newlines_re_le: "newlines_re t = Some n \<Longrightarrow> n \<le> length t"
proof (cases t)
  case Nil
  assume "newlines_re t = Some n"
  with Nil show ?thesis by simp
next
  case (Cons c cs)
  assume "newlines_re t = Some n"
  with Cons obtain k where k: "lastNewline (takeWhile isWhiteSpace cs) = Some k" and n: "n = Suc k"
    by (auto simp: newlines_re_Cons split: if_splits)
  from lastNewline_le [OF k] have "k \<le> length cs"
    using length_takeWhile_le [of isWhiteSpace cs] by simp
  with n Cons show ?thesis by simp
qed

lemma normalizeNewlines_Nil [simp]: "normalizeNewlines [] = []"
  by (simp add: normalizeNewlines_def)

lemma normalizeNewlines_nomatch:
  "newlines_re (c # cs) = None \<Longrightarrow> normalizeNewlines (c # cs) = c # normalizeNewlines cs"
  by (simp add: normalizeNewlines_def)

lemma normalizeNewlines_match:
  assumes "2 \<le> count_list (takeWhile isWhiteSpace cs) 10"
    and "lastNewline (takeWhile isWhiteSpace cs) = Some n"
  shows "normalizeNewlines (10 # cs) = 10 # 10 # normalizeNewlines (drop n cs)"
proof -
  have m: "newlines_re (10 # cs) = Some (Suc n)"
    using assms by (simp add: newlines_re_Cons)
  from newlines_re_le [OF m] have n: "n \<le> length cs" by simp
  show ?thesis
    unfolding normalizeNewlines_def
    using replaceAll_match [of newlines_re 10 cs n "\<lambda>m. [10, 10]"] m n by simp
qed

lemma normalizeNewlines_split:
  assumes "\<not> isWhiteSpace x"
  shows "normalizeNewlines (u @ x # v) = normalizeNewlines u @ x # normalizeNewlines v"
  unfolding normalizeNewlines_def
proof (rule replaceAll_split)
  from assms have x: "x \<noteq> 10" by (auto simp: isWhiteSpace_def)
  show "newlines_re [] = None" by simp
  show "\<And>t. newlines_re (x # t) = None" using x by (simp add: newlines_re_Cons)
  show "\<And>t. newlines_re (t @ x # v) = newlines_re t"
  proof -
    fix t show "newlines_re (t @ x # v) = newlines_re t"
      using assms x by (cases t) (simp_all add: newlines_re_Cons takeWhile_tail)
  qed
  show "\<And>t n. newlines_re t = Some n \<Longrightarrow> n \<le> length t"
    by (rule newlines_re_le)
qed

lemma newlinesOk_mono: "newlinesOk k s \<Longrightarrow> j \<le> k \<Longrightarrow> newlinesOk j s"
proof (induction s arbitrary: k j)
  case Nil
  then show ?case by simp
next
  case (Cons c cs)
  show ?case
  proof (cases "c = 10")
    case True
    with Cons.prems have "k < 2" "newlinesOk (Suc k) cs" by simp_all
    with Cons.IH [of "Suc k" "Suc j"] Cons.prems(2) True show ?thesis by simp
  next
    case False
    with Cons.prems Cons.IH [of k j] show ?thesis by (simp split: if_splits)
  qed
qed

lemma newlinesOk_tail: "newlinesOk k (c # cs) \<Longrightarrow> newlinesOk 0 cs"
  by (auto split: if_splits intro: newlinesOk_mono)

lemma newlinesOk_append: "newlinesOk k (u @ v) \<Longrightarrow> newlinesOk k u \<and> newlinesOk 0 v"
proof (induction u arbitrary: k)
  case Nil
  then show ?case by (auto intro: newlinesOk_mono)
next
  case (Cons c u)
  then show ?case by (auto split: if_splits)
qed

lemma newlinesOk_count:
  "newlinesOk k s \<Longrightarrow> k \<le> 2 \<Longrightarrow> k + count_list (takeWhile isWhiteSpace s) 10 \<le> 2"
proof (induction s arbitrary: k)
  case Nil
  then show ?case by simp
next
  case (Cons c cs)
  show ?case
  proof (cases "c = 10")
    case True
    with Cons.prems have "k < 2" "newlinesOk (Suc k) cs" by simp_all
    with Cons.IH [of "Suc k"] True show ?thesis by (simp add: isWhiteSpace_def)
  next
    case False
    with Cons.prems Cons.IH [of k] show ?thesis by (simp split: if_splits)
  qed
qed

lemma newlinesOk_nomatch: "newlinesOk k s \<Longrightarrow> i \<le> length s \<Longrightarrow> newlines_re (drop i s) = None"
proof (induction s arbitrary: k i)
  case Nil
  then show ?case by simp
next
  case (Cons c cs)
  show ?case
  proof (cases i)
    case 0
    show ?thesis
    proof (cases "c = 10")
      case True
      with Cons.prems have "newlinesOk (Suc k) cs" "Suc k \<le> 2" by simp_all
      from newlinesOk_count [OF this] have "count_list (takeWhile isWhiteSpace cs) 10 < 2" by simp
      with 0 show ?thesis by (simp add: newlines_re_Cons)
    next
      case False
      with 0 show ?thesis by (simp add: newlines_re_Cons)
    qed
  next
    case (Suc j)
    from Cons.prems(1) have "newlinesOk 0 cs" by (rule newlinesOk_tail)
    with Cons.IH [of 0 j] Cons.prems(2) Suc show ?thesis by simp
  qed
qed

lemma normalizeNewlines_id: "newlinesOk 0 s \<Longrightarrow> normalizeNewlines s = s"
  unfolding normalizeNewlines_def
  by (rule replaceAll_id) (auto intro: newlinesOk_nomatch)

lemma takeWhile_drop_le:
  "n \<le> length (takeWhile p s) \<Longrightarrow> takeWhile p (drop n s) = drop n (takeWhile p s)"
proof (induction s arbitrary: n)
  case Nil
  then show ?case by simp
next
  case (Cons c cs)
  then show ?case by (cases n) (auto split: if_splits)
qed

lemma newlinesOk_normalizeNewlines_gen:
  "k = 0 \<or> k + count_list (takeWhile isWhiteSpace s) 10 \<le> 2 \<Longrightarrow>
     newlinesOk k (normalizeNewlines s)"
proof (induction s arbitrary: k rule: length_induct)
  case (1 s)
  show ?case
  proof (cases s)
    case Nil
    then show ?thesis by simp
  next
    case (Cons c cs)
    let ?w = "takeWhile isWhiteSpace cs"
    have ih: "\<And>t j. length t \<le> length cs \<Longrightarrow>
        j = 0 \<or> j + count_list (takeWhile isWhiteSpace t) 10 \<le> 2 \<Longrightarrow>
        newlinesOk j (normalizeNewlines t)"
      using 1 Cons by (metis le_imp_less_Suc length_Cons)
    show ?thesis
    proof (cases "c = 10")
      case False
      then have nm: "normalizeNewlines (c # cs) = c # normalizeNewlines cs"
        by (simp add: normalizeNewlines_nomatch newlines_re_Cons)
      show ?thesis
      proof (cases "isWhiteSpace c")
        case True
        with "1.prems" Cons False have "k = 0 \<or> k + count_list ?w 10 \<le> 2" by simp
        from ih [OF _ this] nm False True Cons show ?thesis by simp
      next
        case ws: False
        from ih [of cs 0] nm False ws Cons show ?thesis by simp
      qed
    next
      case True
      then have ten: "isWhiteSpace c" by (simp add: isWhiteSpace_def)
      show ?thesis
      proof (cases "2 \<le> count_list ?w 10")
        case False
        then have nm: "normalizeNewlines (c # cs) = c # normalizeNewlines cs"
          by (simp add: normalizeNewlines_nomatch newlines_re_Cons)
        from "1.prems" Cons True ten False
        have k: "k < 2" and h: "Suc k + count_list ?w 10 \<le> 2" by auto
        from ih [of cs "Suc k"] h have "newlinesOk (Suc k) (normalizeNewlines cs)" by simp
        with nm k True Cons show ?thesis by simp
      next
        case two: True
        with "1.prems" Cons True ten have k: "k = 0" by auto
        from two have "lastNewline ?w \<noteq> None" by (simp add: lastNewline_count)
        then obtain n where n: "lastNewline ?w = Some n" by blast
        have nle: "n \<le> length ?w" using n by (rule lastNewline_le)
        have "takeWhile isWhiteSpace (drop n cs) = drop n ?w"
          using nle by (rule takeWhile_drop_le)
        moreover have "10 \<notin> set (drop n ?w)" using n by (rule lastNewline_rest)
        ultimately have "count_list (takeWhile isWhiteSpace (drop n cs)) 10 = 0"
          by (simp add: count_list_0_iff)
        with ih [of "drop n cs" 2] have "newlinesOk (Suc (Suc 0)) (normalizeNewlines (drop n cs))"
          by (simp add: numeral_2_eq_2)
        with normalizeNewlines_match [OF two n] True k Cons show ?thesis by simp
      qed
    qed
  qed
qed

lemma newlinesOk_normalizeNewlines: "newlinesOk 0 (normalizeNewlines s)"
  by (rule newlinesOk_normalizeNewlines_gen) simp

lemma isHSpace_ws: "isHSpace c \<Longrightarrow> isWhiteSpace c \<and> c \<noteq> 10"
  by (auto simp: isHSpace_def isWhiteSpace_def)

lemma newlinesOk_dropWhile_hspace: "newlinesOk k s \<Longrightarrow> newlinesOk k (dropWhile isHSpace s)"
  by (induction s) (auto dest: isHSpace_ws)

lemma newlinesOk_normalizeSpaces: "newlinesOk k s \<Longrightarrow> newlinesOk k (normalizeSpaces s)"
proof (induction s arbitrary: k rule: length_induct)
  case (1 s)
  show ?case
  proof (cases s)
    case Nil
    then show ?thesis by simp
  next
    case (Cons c cs)
    have ih: "\<And>t j. length t \<le> length cs \<Longrightarrow> newlinesOk j t \<Longrightarrow> newlinesOk j (normalizeSpaces t)"
      using 1 Cons by (metis le_imp_less_Suc length_Cons)
    show ?thesis
    proof (cases "isHSpace c")
      case True
      then have c: "isWhiteSpace c" "c \<noteq> 10" by (auto dest: isHSpace_ws)
      with "1.prems" Cons have "newlinesOk k cs" by simp
      then have "newlinesOk k (dropWhile isHSpace cs)" by (rule newlinesOk_dropWhile_hspace)
      with ih [of "dropWhile isHSpace cs" k] have "newlinesOk k (normalizeSpaces (dropWhile isHSpace cs))"
        by (simp add: length_dropWhile_le)
      with True Cons show ?thesis by (simp add: normalizeSpaces_Cons isWhiteSpace_def)
    next
      case False
      with "1.prems" Cons ih [of cs] show ?thesis
        by (auto simp: normalizeSpaces_Cons split: if_splits)
    qed
  qed
qed

subsection \<open>Trimming around a text\<close>

lemma trim_decomp: "\<exists>a b. s = a @ trim s @ b"
proof -
  let ?u = "dropWhile isWhiteSpace s"
  have "rev (takeWhile isWhiteSpace (rev ?u) @ dropWhile isWhiteSpace (rev ?u)) = ?u"
    by (simp only: takeWhile_dropWhile_id rev_rev_ident)
  then have "rev (dropWhile isWhiteSpace (rev ?u)) @ rev (takeWhile isWhiteSpace (rev ?u)) = ?u"
    by (simp only: rev_append)
  then have "?u = trim s @ rev (takeWhile isWhiteSpace (rev ?u))"
    by (simp only: trim_def)
  moreover have "s = takeWhile isWhiteSpace s @ ?u" by simp
  ultimately have "s = takeWhile isWhiteSpace s @ trim s @ rev (takeWhile isWhiteSpace (rev ?u))"
    by simp
  then show ?thesis by blast
qed

lemma trimEnd_append:
  assumes "\<not> isWhiteSpace y"
  shows "rev (dropWhile isWhiteSpace (rev (A @ y # Q))) = A @ rev (dropWhile isWhiteSpace (rev (y # Q)))"
proof -
  have "rev (A @ y # Q) = (rev Q @ [y]) @ rev A" by simp
  moreover have "dropWhile isWhiteSpace ((rev Q @ [y]) @ rev A) =
      dropWhile isWhiteSpace (rev Q @ [y]) @ rev A"
    using assms by (intro dropWhile_append1 [of y]) simp_all
  ultimately show ?thesis by simp
qed

lemma trimStart_append:
  assumes "\<not> isWhiteSpace x"
  shows "dropWhile isWhiteSpace (P @ x # R) = dropWhile isWhiteSpace (P @ [x]) @ R"
proof -
  have "dropWhile isWhiteSpace ((P @ [x]) @ R) = dropWhile isWhiteSpace (P @ [x]) @ R"
    using assms by (intro dropWhile_append1 [of x]) simp_all
  then show ?thesis by simp
qed

lemma trimStart_snoc:
  assumes "\<not> isWhiteSpace x"
  shows "dropWhile isWhiteSpace (P @ [x]) = dropWhile isWhiteSpace P @ [x]"
  using assms by (induction P) simp_all

lemma trim_around:
  assumes x: "\<not> isWhiteSpace x" and y: "\<not> isWhiteSpace y"
  shows "trim (P @ x # mid @ y # Q) = trim (P @ [x]) @ mid @ trim (y # Q)"
proof -
  let ?P = "dropWhile isWhiteSpace P"
  have s: "dropWhile isWhiteSpace (P @ x # mid @ y # Q) = ?P @ [x] @ mid @ y # Q"
    using trimStart_append [OF x, of P "mid @ y # Q"] trimStart_snoc [OF x, of P] by simp
  have "trim (P @ x # mid @ y # Q) = rev (dropWhile isWhiteSpace (rev ((?P @ [x] @ mid) @ y # Q)))"
    by (simp add: trim_def s)
  also have "\<dots> = (?P @ [x] @ mid) @ rev (dropWhile isWhiteSpace (rev (y # Q)))"
    using y by (rule trimEnd_append)
  finally have whole: "trim (P @ x # mid @ y # Q) =
      ?P @ [x] @ mid @ rev (dropWhile isWhiteSpace (rev (y # Q)))" by simp
  have left: "trim (P @ [x]) = ?P @ [x]"
    using x by (simp add: trim_def trimStart_snoc)
  have right: "trim (y # Q) = rev (dropWhile isWhiteSpace (rev (y # Q)))"
    using y by (simp add: trim_def)
  from whole left right show ?thesis by simp
qed

subsection \<open>Texts in which no marker pattern matches\<close>

lemma noMatch_drop: "noMatch m s \<Longrightarrow> i \<le> length s \<Longrightarrow> m (drop i s) = None"
proof (induction s arbitrary: i)
  case Nil
  then show ?case by simp
next
  case (Cons c cs)
  then show ?case by (cases i) simp_all
qed

lemma replaceAll_noMatch: "noMatch m s \<Longrightarrow> replaceAll m f 0 s = s"
  by (rule replaceAll_id) (simp add: noMatch_drop)

lemma stripMarkers_id:
  assumes "markerFree r"
  shows "stripMarkers r = r"
proof -
  from assms have 1: "limitThinkingPass r = r" and 2: "removeThinking r = r"
    by (simp_all add: markerFree_def limitThinkingPass_def removeThinking_def replaceAll_noMatch)
  from assms have 3: "removeRedacted r = r" and 4: "removeSpecial r = r"
    by (simp_all add: markerFree_def removeRedacted_def removeSpecial_def replaceAll_noMatch)
  from assms have 5: "removeEndOfSentence r = r" and 6: "removeEndTokens r = r"
    by (simp_all add: markerFree_def removeEndOfSentence_def removeEndTokens_def replaceAll_noMatch)
  show ?thesis by (simp add: stripMarkers_def 1 2 3 4 5 6)
qed

lemma cleanResponse_tidy: "cleanResponse s = tidy (stripMarkers s)"
  by (simp add: cleanResponse_def tidy_def stripMarkers_def)

subsection \<open>The shape of a cleaned text\<close>

lemma newlinesOk_tidy: "newlinesOk 0 (tidy y)"
proof -
  let ?z = "normalizeSpaces (normalizeNewlines y)"
  obtain a b where z: "?z = a @ tidy y @ b" unfolding tidy_def using trim_decomp by blast
  have "newlinesOk 0 ?z"
    using newlinesOk_normalizeNewlines by (rule newlinesOk_normalizeSpaces)
  then have "newlinesOk 0 (a @ tidy y @ b)" by (simp only: z)
  then have "newlinesOk 0 (tidy y @ b)" using newlinesOk_append by blast
  then show ?thesis using newlinesOk_append by blast
qed

lemma spacesOk_tidy: "spacesOk (tidy y)"
proof -
  let ?z = "normalizeSpaces (normalizeNewlines y)"
  obtain a b where z: "?z = a @ tidy y @ b" unfolding tidy_def using trim_decomp by blast
  have "spacesOk ?z" by (rule spacesOk_normalizeSpaces)
  then have "spacesOk (a @ tidy y @ b)" by (simp only: z)
  then have "spacesOk (tidy y @ b)" using spacesOk_append by blast
  then show ?thesis using spacesOk_append by blast
qed

text \<open>What the last three passes return is left unchanged by them.\<close>

lemma tidy_tidy: "tidy (tidy y) = tidy y"
proof -
  have "normalizeNewlines (tidy y) = tidy y"
    using newlinesOk_tidy by (rule normalizeNewlines_id)
  moreover have "normalizeSpaces (tidy y) = tidy y"
    using spacesOk_tidy by (rule normalizeSpaces_id)
  moreover have "trim (tidy y) = tidy y"
    unfolding tidy_def by (rule trim_trim)
  ultimately show ?thesis by (simp add: tidy_def [of "tidy y"])
qed

lemma newlinesOk_no_triple: "newlinesOk k r \<Longrightarrow> \<not> sublist [10, 10, 10] r"
proof
  assume ok: "newlinesOk k r" and "sublist [10, 10, 10] r"
  then obtain u v where "r = u @ [10, 10, 10] @ v" unfolding sublist_def by blast
  with ok have "newlinesOk k (u @ [10, 10, 10] @ v)" by simp
  then have "newlinesOk 0 ([10, 10, 10] @ v)" using newlinesOk_append by blast
  then show False by simp
qed

lemma spacesOk_no_double: "spacesOk r \<Longrightarrow> \<not> sublist [32, 32] r"
proof
  assume ok: "spacesOk r" and "sublist [32, 32] r"
  then obtain u v where "r = u @ [32, 32] @ v" unfolding sublist_def by blast
  with ok have "spacesOk (u @ [32, 32] @ v)" by simp
  then have "spacesOk ([32, 32] @ v)" using spacesOk_append by blast
  then show False by (simp add: isHSpace_def)
qed

lemma spacesOk_no_tab: "spacesOk r \<Longrightarrow> 9 \<notin> set r"
  by (induction r) (auto simp: isHSpace_def)

subsection \<open>Runs of whitespace inside a text\<close>

lemma lastNewline_replicate: "0 < n \<Longrightarrow> lastNewline (replicate n 10) = Some n"
proof (induction n)
  case 0
  then show ?case by simp
next
  case (Suc n)
  then show ?case by (cases n) simp_all
qed

lemma count_replicate_newlines: "count_list (replicate m 10) (10::nat) = m"
  by (induction m) simp_all

lemma normalizeNewlines_replicate:
  assumes "2 \<le> n"
  shows "normalizeNewlines (replicate n 10) = [10, 10]"
proof (cases "n = 2")
  case True
  have "newlinesOk 0 [10, 10]" by simp
  then have "normalizeNewlines [10, 10] = [10, 10]" by (rule normalizeNewlines_id)
  with True show ?thesis by (simp add: numeral_2_eq_2)
next
  case False
  with assms obtain m where n: "n = Suc m" and m: "2 \<le> m" by (cases n) auto
  have ws: "takeWhile isWhiteSpace (replicate m 10) = replicate m 10"
    by (simp add: isWhiteSpace_def)
  have c: "2 \<le> count_list (takeWhile isWhiteSpace (replicate m 10)) 10"
    unfolding ws using m by (simp add: count_replicate_newlines)
  have l: "lastNewline (takeWhile isWhiteSpace (replicate m 10)) = Some m"
    unfolding ws using m by (simp add: lastNewline_replicate)
  from normalizeNewlines_match [OF c l] n show ?thesis by simp
qed

lemma normalizeNewlines_no_newline: "10 \<notin> set s \<Longrightarrow> normalizeNewlines s = s"
  unfolding normalizeNewlines_def
proof (rule replaceAll_id, intro allI impI)
  fix i assume a: "10 \<notin> set s" "i \<le> length s"
  show "newlines_re (drop i s) = None"
  proof (cases "drop i s")
    case Nil
    then show ?thesis by simp
  next
    case (Cons c cs)
    then have "c \<in> set s" by (metis in_set_dropD list.set_intros(1))
    with a have "c \<noteq> 10" by auto
    with Cons show ?thesis by (simp add: newlines_re_Cons)
  qed
qed

lemma not_ws_not_hspace: "\<not> isWhiteSpace c \<Longrightarrow> \<not> isHSpace c"
  using isHSpace_ws by blast

text \<open>A text with at most two newlines in all has no run with more.\<close>

lemma newlinesOk_few: "k + count_list s 10 \<le> 2 \<Longrightarrow> newlinesOk k s"
proof (induction s arbitrary: k)
  case Nil
  show ?case by simp
next
  case (Cons c cs)
  show ?case
  proof (cases "c = 10")
    case True
    with Cons.prems have "Suc k + count_list cs 10 \<le> 2" by simp
    then have "newlinesOk (Suc k) cs" by (rule Cons.IH)
    moreover from True Cons.prems have "k < 2" by simp
    ultimately show ?thesis using True by simp
  next
    case False
    with Cons.prems have a: "k + count_list cs 10 \<le> 2" by simp
    then have "newlinesOk k cs" by (rule Cons.IH)
    moreover from a have "0 + count_list cs 10 \<le> 2" by simp
    then have "newlinesOk 0 cs" by (rule Cons.IH)
    ultimately show ?thesis using False by simp
  qed
qed

lemma lastNewline_tail:
  "lastNewline w = Some n \<Longrightarrow> drop n w = rev (takeWhile (\<lambda>c. c \<noteq> 10) (rev w))"
proof (induction w arbitrary: n)
  case Nil
  then show ?case by simp
next
  case (Cons c cs)
  show ?case
  proof (cases "lastNewline cs")
    case None
    then have no: "10 \<notin> set cs" by (simp add: lastNewline_None)
    from None Cons.prems have c: "c = 10" and n: "n = 1" by (simp_all split: if_splits)
    from no have "takeWhile (\<lambda>c. c \<noteq> 10) (rev cs @ [10]) = rev cs"
      by (auto simp: takeWhile_tail)
    with c n show ?thesis by simp
  next
    case (Some m)
    with Cons.prems have n: "n = Suc m" by simp
    from Some have "drop m cs = rev (takeWhile (\<lambda>c. c \<noteq> 10) (rev cs))" by (rule Cons.IH)
    moreover from Some have "10 \<in> set (rev cs)"
      using lastNewline_None [of cs] by simp
    then have "takeWhile (\<lambda>c. c \<noteq> 10) (rev cs @ [c]) = takeWhile (\<lambda>c. c \<noteq> 10) (rev cs)"
      by (intro takeWhile_append1 [of 10]) simp_all
    ultimately show ?thesis using n by simp
  qed
qed

text \<open>On a run of whitespace the newline pass does what the specification's rule says.\<close>

lemma normalizeNewlines_run:
  assumes ws: "\<forall>c \<in> set W. isWhiteSpace c"
  shows "normalizeNewlines W = spec_collapseRun W"
proof (cases "3 \<le> count_list W 10")
  case False
  then have "0 + count_list W 10 \<le> 2" by simp
  then have "newlinesOk 0 W" by (rule newlinesOk_few)
  then have "normalizeNewlines W = W" by (rule normalizeNewlines_id)
  with False show ?thesis by (simp add: spec_collapseRun_def)
next
  case True
  then have "count_list W 10 \<noteq> 0" by simp
  then have "10 \<in> set W" by (simp add: count_list_0_iff)
  then obtain P R where W: "W = P @ 10 # R" and P: "10 \<notin> set P"
    using split_list_first [of 10 W] by blast
  from P have cP: "count_list P 10 = 0" by (simp add: count_list_0_iff)
  from True have cR: "2 \<le> count_list R 10" by (simp add: W cP)
  from ws have "\<forall>c \<in> set R. isWhiteSpace c" by (simp add: W)
  then have tw: "takeWhile isWhiteSpace R = R" by (simp add: takeWhile_eq_all_conv)
  from cR have "lastNewline R \<noteq> None" by (simp add: lastNewline_count)
  then obtain n where n: "lastNewline R = Some n" by blast
  have "normalizeNewlines (10 # R) = 10 # 10 # normalizeNewlines (drop n R)"
    using cR n by (intro normalizeNewlines_match) (simp_all add: tw)
  moreover have "normalizeNewlines (drop n R) = drop n R"
    using n by (intro normalizeNewlines_no_newline lastNewline_rest)
  ultimately have mid: "normalizeNewlines (10 # R) = 10 # 10 # drop n R" by simp
  have "\<forall>i < length P. newlines_re (drop i P @ 10 # R) = None"
  proof (intro allI impI)
    fix i assume i: "i < length P"
    then have d: "drop i P = P ! i # drop (Suc i) P" by (simp add: Cons_nth_drop_Suc)
    from i P have "P ! i \<noteq> 10" by (metis nth_mem)
    then show "newlines_re (drop i P @ 10 # R) = None"
      by (simp add: d newlines_re_Cons)
  qed
  then have pre: "normalizeNewlines (P @ 10 # R) = P @ normalizeNewlines (10 # R)"
    unfolding normalizeNewlines_def by (rule replaceAll_prefix)
  have first: "takeWhile (\<lambda>c. c \<noteq> 10) (P @ 10 # R) = P"
    using P by (auto simp: takeWhile_tail)
  from n have "10 \<in> set (rev R)" using lastNewline_None [of R] by simp
  then have "takeWhile (\<lambda>c. c \<noteq> 10) (rev R @ 10 # rev P) = takeWhile (\<lambda>c. c \<noteq> 10) (rev R)"
    by (intro takeWhile_append1 [of 10]) simp_all
  then have last: "rev (takeWhile (\<lambda>c. c \<noteq> 10) (rev (P @ 10 # R))) = drop n R"
    using lastNewline_tail [OF n] by simp
  from True have "spec_collapseRun (P @ 10 # R) = P @ [10, 10] @ drop n R"
    unfolding spec_collapseRun_def W first last by simp
  with pre mid show ?thesis by (simp add: W)
qed

lemma tidy_around:
  assumes x: "\<not> isWhiteSpace x" and z: "\<not> isWhiteSpace z"
  shows "tidy (A @ x # W @ z # B) =
           tidy (A @ [x]) @ normalizeSpaces (normalizeNewlines W) @ tidy (z # B)"
proof -
  let ?A = "normalizeSpaces (normalizeNewlines A)"
  let ?B = "normalizeSpaces (normalizeNewlines B)"
  let ?mid = "normalizeSpaces (normalizeNewlines W)"
  from x z have hx: "\<not> isHSpace x" and hz: "\<not> isHSpace z" by (simp_all add: not_ws_not_hspace)
  have "normalizeNewlines (A @ x # W @ z # B) =
      normalizeNewlines A @ x # normalizeNewlines (W @ z # B)"
    using x by (rule normalizeNewlines_split)
  also have "normalizeNewlines (W @ z # B) = normalizeNewlines W @ z # normalizeNewlines B"
    using z by (rule normalizeNewlines_split)
  finally have "normalizeSpaces (normalizeNewlines (A @ x # W @ z # B)) =
      normalizeSpaces (normalizeNewlines A @ x # normalizeNewlines W @ z # normalizeNewlines B)"
    by simp
  also have "\<dots> = ?A @ x # normalizeSpaces (normalizeNewlines W @ z # normalizeNewlines B)"
    using hx by (rule normalizeSpaces_split)
  also have "normalizeSpaces (normalizeNewlines W @ z # normalizeNewlines B) = ?mid @ z # ?B"
    using hz by (rule normalizeSpaces_split)
  finally have whole: "tidy (A @ x # W @ z # B) = trim (?A @ x # ?mid @ z # ?B)"
    by (simp add: tidy_def)
  have "normalizeNewlines (A @ [x]) = normalizeNewlines A @ [x]"
    using normalizeNewlines_split [OF x, of A "[]"] by simp
  moreover have "normalizeSpaces (normalizeNewlines A @ [x]) = ?A @ [x]"
    using normalizeSpaces_split [OF hx, of "normalizeNewlines A" "[]"] by simp
  ultimately have left: "tidy (A @ [x]) = trim (?A @ [x])"
    by (simp add: tidy_def)
  have "normalizeNewlines (z # B) = z # normalizeNewlines B"
    using normalizeNewlines_split [OF z, of "[]" B] by simp
  moreover have "normalizeSpaces (z # normalizeNewlines B) = z # ?B"
    using normalizeSpaces_split [OF hz, of "[]" "normalizeNewlines B"] by simp
  ultimately have right: "tidy (z # B) = trim (z # ?B)"
    by (simp add: tidy_def)
  from whole left right trim_around [OF x z, of ?A ?mid ?B] show ?thesis by simp
qed

lemma collapse_newline_run:
  assumes "2 \<le> n"
  shows "normalizeSpaces (spec_collapseRun (replicate n 10)) = [10, 10]"
proof -
  have "\<forall>c \<in> set (replicate n 10). isWhiteSpace c" by (simp add: isWhiteSpace_def)
  then have "spec_collapseRun (replicate n 10) = normalizeNewlines (replicate n 10)"
    by (simp add: normalizeNewlines_run)
  also have "\<dots> = [10, 10]" using assms by (rule normalizeNewlines_replicate)
  finally show ?thesis by (simp add: normalizeSpaces_Cons isHSpace_def)
qed

lemma collapse_space_run:
  assumes "W \<noteq> []" and "\<forall>c \<in> set W. c = 32 \<or> c = 9"
  shows "normalizeSpaces (spec_collapseRun W) = [32]"
proof -
  from assms(2) have "10 \<notin> set W" by auto
  then have "count_list W 10 = 0" by (simp add: count_list_0_iff)
  then have "spec_collapseRun W = W" by (simp add: spec_collapseRun_def)
  moreover from assms have "normalizeSpaces W = [32]"
    by (intro normalizeSpaces_run) (auto simp: isHSpace_def)
  ultimately show ?thesis by simp
qed

text \<open>
  C5, amended. For the current \<^verbatim>\<open>cleanResponse\<close> of llama.config.ts and every
  input: take the text that the first six passes leave, which is the input itself when
  no marker pattern matches in it. Every run of whitespace of this text that stands
  between two characters that are not whitespace comes out, between the tidied text
  before it and the tidied text behind it, with its newlines collapsed as the
  specification says (three or more become exactly two, fewer are kept) and with every
  stretch of spaces and tabs turned into one space. So a run of two or more newlines
  comes out as exactly two newlines, and a run of spaces and tabs as one space.
  Whitespace at the two ends is removed by the final trim: a cleaned text neither starts
  nor ends with whitespace. No cleaned text holds three newlines in a row, two spaces in
  a row or a tab.
\<close>

theorem C5_whitespace_runs:
  "(\<not> isWhiteSpace x \<and> \<not> isWhiteSpace z \<and> (\<forall>c \<in> set W. isWhiteSpace c)
      \<and> stripMarkers s = A @ x # W @ z # B \<longrightarrow>
        cleanResponse s = tidy (A @ [x]) @ normalizeSpaces (spec_collapseRun W) @ tidy (z # B))
   \<and> (\<not> isWhiteSpace x \<and> \<not> isWhiteSpace z \<and> 2 \<le> n
      \<and> stripMarkers s = A @ x # replicate n 10 @ z # B \<longrightarrow>
        cleanResponse s = tidy (A @ [x]) @ [10, 10] @ tidy (z # B))
   \<and> (\<not> isWhiteSpace x \<and> \<not> isWhiteSpace z \<and> V \<noteq> [] \<and> (\<forall>c \<in> set V. c = 32 \<or> c = 9)
      \<and> stripMarkers s = A @ x # V @ z # B \<longrightarrow>
        cleanResponse s = tidy (A @ [x]) @ [32] @ tidy (z # B))
   \<and> (markerFree s \<longrightarrow> stripMarkers s = s)
   \<and> (cleanResponse s \<noteq> [] \<longrightarrow>
        \<not> isWhiteSpace (hd (cleanResponse s)) \<and> \<not> isWhiteSpace (last (cleanResponse s)))
   \<and> \<not> sublist [10, 10, 10] (cleanResponse s)
   \<and> \<not> sublist [32, 32] (cleanResponse s)
   \<and> 9 \<notin> set (cleanResponse s)"
proof -
  have around: "cleanResponse s = tidy (A @ [x]) @ normalizeSpaces (spec_collapseRun U) @ tidy (z # B)"
    if "\<not> isWhiteSpace x" and "\<not> isWhiteSpace z" and "\<forall>c \<in> set U. isWhiteSpace c"
      and "stripMarkers s = A @ x # U @ z # B" for U
  proof -
    have "cleanResponse s = tidy (A @ x # U @ z # B)"
      using that(4) by (simp add: cleanResponse_tidy)
    also have "\<dots> = tidy (A @ [x]) @ normalizeSpaces (normalizeNewlines U) @ tidy (z # B)"
      using that(1,2) by (rule tidy_around)
    also have "normalizeNewlines U = spec_collapseRun U"
      using that(3) by (rule normalizeNewlines_run)
    finally show ?thesis .
  qed
  have 1: "\<not> isWhiteSpace x \<and> \<not> isWhiteSpace z \<and> (\<forall>c \<in> set W. isWhiteSpace c)
      \<and> stripMarkers s = A @ x # W @ z # B \<longrightarrow>
        cleanResponse s = tidy (A @ [x]) @ normalizeSpaces (spec_collapseRun W) @ tidy (z # B)"
    using around [of W] by blast
  have 2: "\<not> isWhiteSpace x \<and> \<not> isWhiteSpace z \<and> 2 \<le> n
      \<and> stripMarkers s = A @ x # replicate n 10 @ z # B \<longrightarrow>
        cleanResponse s = tidy (A @ [x]) @ [10, 10] @ tidy (z # B)"
  proof
    assume h: "\<not> isWhiteSpace x \<and> \<not> isWhiteSpace z \<and> 2 \<le> n
      \<and> stripMarkers s = A @ x # replicate n 10 @ z # B"
    have "\<forall>c \<in> set (replicate n 10). isWhiteSpace c" by (simp add: isWhiteSpace_def)
    with h have "cleanResponse s =
        tidy (A @ [x]) @ normalizeSpaces (spec_collapseRun (replicate n 10)) @ tidy (z # B)"
      using around [of "replicate n 10"] by blast
    moreover from h have "normalizeSpaces (spec_collapseRun (replicate n 10)) = [10, 10]"
      by (simp add: collapse_newline_run)
    ultimately show "cleanResponse s = tidy (A @ [x]) @ [10, 10] @ tidy (z # B)" by simp
  qed
  have 3: "\<not> isWhiteSpace x \<and> \<not> isWhiteSpace z \<and> V \<noteq> [] \<and> (\<forall>c \<in> set V. c = 32 \<or> c = 9)
      \<and> stripMarkers s = A @ x # V @ z # B \<longrightarrow>
        cleanResponse s = tidy (A @ [x]) @ [32] @ tidy (z # B)"
  proof
    assume h: "\<not> isWhiteSpace x \<and> \<not> isWhiteSpace z \<and> V \<noteq> [] \<and> (\<forall>c \<in> set V. c = 32 \<or> c = 9)
      \<and> stripMarkers s = A @ x # V @ z # B"
    then have "\<forall>c \<in> set V. isWhiteSpace c" by (auto simp: isWhiteSpace_def)
    with h have "cleanResponse s =
        tidy (A @ [x]) @ normalizeSpaces (spec_collapseRun V) @ tidy (z # B)"
      using around [of V] by blast
    moreover from h have "normalizeSpaces (spec_collapseRun V) = [32]"
      by (simp add: collapse_space_run)
    ultimately show "cleanResponse s = tidy (A @ [x]) @ [32] @ tidy (z # B)" by simp
  qed
  have 4: "markerFree s \<longrightarrow> stripMarkers s = s"
    by (simp add: stripMarkers_id)
  have 5: "cleanResponse s \<noteq> [] \<longrightarrow>
        \<not> isWhiteSpace (hd (cleanResponse s)) \<and> \<not> isWhiteSpace (last (cleanResponse s))"
  proof
    assume "cleanResponse s \<noteq> []"
    then have "trim (cleanResponse s) \<noteq> []" by (simp add: cleanResponse_trimmed)
    then have "\<not> isWhiteSpace (hd (trim (cleanResponse s)))"
      and "\<not> isWhiteSpace (last (trim (cleanResponse s)))" by (rule trim_ends)+
    then show "\<not> isWhiteSpace (hd (cleanResponse s)) \<and> \<not> isWhiteSpace (last (cleanResponse s))"
      by (simp add: cleanResponse_trimmed)
  qed
  have 6: "\<not> sublist [10, 10, 10] (cleanResponse s)"
    unfolding cleanResponse_tidy using newlinesOk_tidy by (rule newlinesOk_no_triple)
  have 7: "\<not> sublist [32, 32] (cleanResponse s)"
    unfolding cleanResponse_tidy using spacesOk_tidy by (rule spacesOk_no_double)
  have 8: "9 \<notin> set (cleanResponse s)"
    unfolding cleanResponse_tidy using spacesOk_tidy by (rule spacesOk_no_tab)
  from 1 2 3 4 5 6 7 8 show ?thesis by blast
qed

theorem C5_whitespace_runs_witness:
  "stripMarkers (str ''1 < 2'' @ [32, 10, 9, 10, 10, 9] @ str ''x <|im_end|>  y'')
       = str ''1 < '' @ 50 # [32, 10, 9, 10, 10, 9] @ 120 # str ''   y''
   \<and> cleanResponse (str ''1 < 2'' @ [32, 10, 9, 10, 10, 9] @ str ''x <|im_end|>  y'')
       = str ''1 < 2'' @ [32, 10, 10, 32] @ str ''x y''
   \<and> markerFree (str ''a <b'' @ [10, 10, 10, 10] @ str ''c'')
   \<and> cleanResponse (str ''a <b'' @ [10, 10, 10, 10] @ str ''c'') = str ''a <b'' @ [10, 10] @ str ''c''
   \<and> markerFree (str ''a <b'' @ [32, 9, 32] @ str ''c'')
   \<and> cleanResponse (str ''a <b'' @ [32, 9, 32] @ str ''c'') = str ''a <b c''
   \<and> cleanResponse (str ''a <b'' @ [32, 9, 32] @ str ''c'') \<noteq> []
   \<and> \<not> isWhiteSpace (hd (cleanResponse (str ''a <b'' @ [32, 9, 32] @ str ''c'')))
   \<and> \<not> isWhiteSpace (last (cleanResponse (str ''a <b'' @ [32, 9, 32] @ str ''c'')))"
proof -
  let ?W = "[32, 10, 9, 10, 10, 9] :: jsstring"
  let ?s = "str ''1 < 2'' @ ?W @ str ''x <|im_end|>  y''"
  let ?t = "str ''a <b'' @ [10, 10, 10, 10] @ str ''c''"
  let ?u = "str ''a <b'' @ [32, 9, 32] @ str ''c''"
  have x: "\<not> isWhiteSpace 50" "\<not> isWhiteSpace 120" "\<not> isWhiteSpace 98" "\<not> isWhiteSpace 99"
    by (simp_all add: isWhiteSpace_def)
  have w: "\<forall>c \<in> set ?W. isWhiteSpace c" by (simp add: isWhiteSpace_def)
  have s: "stripMarkers ?s = str ''1 < '' @ 50 # ?W @ 120 # str ''   y''"
    by (simp add: stripMarkers_def cleanResponse_eval)
  have e: "tidy (str ''1 < '' @ [50]) = str ''1 < 2''"
    "normalizeSpaces (spec_collapseRun ?W) = [32, 10, 10, 32]"
    "tidy (120 # str ''   y'') = str ''x y''"
    by (simp_all add: tidy_def spec_collapseRun_def cleanResponse_eval)
  from C5_whitespace_runs [of 50 120 ?W ?s "str ''1 < ''" "str ''   y''"] x w s e
  have a: "cleanResponse ?s = str ''1 < 2'' @ [32, 10, 10, 32] @ str ''x y''"
    by simp
  have mt: "markerFree ?t" and mu: "markerFree ?u"
    by (simp_all add: markerFree_def cleanResponse_eval)
  have n: "(2::nat) \<le> 4" by simp
  have r: "replicate 4 (10::nat) = [10, 10, 10, 10]" by (simp add: numeral_eq_Suc)
  have v: "[32, 9, 32 :: nat] \<noteq> []" "\<forall>c \<in> set [32, 9, 32 :: nat]. c = 32 \<or> c = 9" by simp_all
  have f: "tidy (str ''a <'' @ [98]) = str ''a <b''" "tidy (99 # []) = str ''c''"
    by (simp_all add: tidy_def cleanResponse_eval)
  have dt: "?t = str ''a <'' @ 98 # replicate 4 10 @ 99 # []"
    and du: "?u = str ''a <'' @ 98 # [32, 9, 32] @ 99 # []"
    by (simp_all add: str_def r)
  from C5_whitespace_runs [of 98 99 _ ?t "str ''a <''" "[]" 4] mt x n dt
  have "stripMarkers ?t = ?t" by blast
  with C5_whitespace_runs [of 98 99 _ ?t "str ''a <''" "[]" 4] x n dt
  have "cleanResponse ?t = tidy (str ''a <'' @ [98]) @ [10, 10] @ tidy (99 # [])" by metis
  with f have b: "cleanResponse ?t = str ''a <b'' @ [10, 10] @ str ''c''" by simp
  from C5_whitespace_runs [of 98 99 _ ?u "str ''a <''" "[]" _ "[32, 9, 32]"] mu
  have "stripMarkers ?u = ?u" by blast
  with C5_whitespace_runs [of 98 99 _ ?u "str ''a <''" "[]" _ "[32, 9, 32]"] x v du
  have "cleanResponse ?u = tidy (str ''a <'' @ [98]) @ [32] @ tidy (99 # [])" by metis
  with f have c: "cleanResponse ?u = str ''a <b c''" by (simp add: str_def)
  from c have ne: "cleanResponse ?u \<noteq> []" by (simp add: str_def)
  from C5_whitespace_runs [of _ _ _ ?u] ne
  have hl: "\<not> isWhiteSpace (hd (cleanResponse ?u))" "\<not> isWhiteSpace (last (cleanResponse ?u))"
    by blast+
  from s a mt b mu c ne hl show ?thesis by simp
qed

text \<open>Two runs of newlines that a removed marker joins are collapsed as one run.\<close>

lemma runs_joined_by_removal:
  "cleanResponse (str ''a'' @ [10, 10, 10] @ str ''<|x|>'' @ [10, 10, 10] @ str ''b'')
     = str ''a'' @ [10, 10] @ str ''b''"
  by (simp add: cleanResponse_eval)

text \<open>The earlier version of the file (part_002) turns every run of whitespace, newlines
  included, into one space.\<close>

lemma basic_newlines_to_space:
  "cleanResponse_basic (str ''a'' @ [10, 10, 10] @ str ''b'') = str ''a b''"
  by (simp add: cleanResponse_basic_eval)

subsection \<open>Reasoning spans\<close>

lemma prefix_border_free:
  assumes p: "prefix lit (d @ lit @ rest)" and d: "d \<noteq> []"
    and bf: "\<forall>j. 0 < j \<and> j < length lit \<longrightarrow> lit ! j \<noteq> lit ! 0"
  shows "prefix lit d"
proof (cases "length lit \<le> length d")
  case True
  from p obtain r where r: "d @ lit @ rest = lit @ r" by (auto simp: prefix_def)
  then have "take (length lit) (d @ lit @ rest) = lit" by simp
  with True have "take (length lit) d = lit" by simp
  then show ?thesis by (metis take_is_prefix)
next
  case False
  then have lt: "length d < length lit" by simp
  from p obtain r where r: "d @ lit @ rest = lit @ r" by (auto simp: prefix_def)
  from lt have "lit \<noteq> []" by auto
  then have "(d @ lit @ rest) ! length d = lit ! 0"
    by (simp add: nth_append)
  moreover have "(lit @ r) ! length d = lit ! length d"
    using lt by (simp add: nth_append)
  ultimately have "lit ! length d = lit ! 0" using r by simp
  moreover from d have "0 < length d" by simp
  ultimately show ?thesis using bf lt by blast
qed

lemma open_border_free:
  "\<forall>j. 0 < j \<and> j < length (str ''<think>'') \<longrightarrow> str ''<think>'' ! j \<noteq> str ''<think>'' ! 0"
proof (intro allI impI)
  fix j assume "0 < j \<and> j < length (str ''<think>'')"
  then have "j \<in> {1, 2, 3, 4, 5, 6}" by (auto simp: str_def)
  then show "str ''<think>'' ! j \<noteq> str ''<think>'' ! 0" by (auto simp: str_def)
qed

lemma close_border_free:
  "\<forall>j. 0 < j \<and> j < length (str ''</think>'') \<longrightarrow> str ''</think>'' ! j \<noteq> str ''</think>'' ! 0"
proof (intro allI impI)
  fix j assume "0 < j \<and> j < length (str ''</think>'')"
  then have "j \<in> {1, 2, 3, 4, 5, 6, 7}" by (auto simp: str_def)
  then show "str ''</think>'' ! j \<noteq> str ''</think>'' ! 0" by (auto simp: str_def)
qed

lemma prefix_sublist: "prefix xs (drop i ys) \<Longrightarrow> sublist xs ys"
proof -
  assume "prefix xs (drop i ys)"
  then obtain r where "drop i ys = xs @ r" by (auto simp: prefix_def)
  then have "ys = take i ys @ xs @ r" by (metis append_take_drop_id)
  then show ?thesis unfolding sublist_def by blast
qed

lemma replaceAll_match_at:
  assumes "m s = Some n" and "0 < n" and "n \<le> length s"
  shows "replaceAll m f 0 s = f (take n s) @ replaceAll m f 0 (drop n s)"
proof -
  from assms obtain c cs where s: "s = c # cs" by (cases s) auto
  from assms obtain k where n: "n = Suc k" by (cases n) auto
  from assms s n have "m (c # cs) = Some (Suc k)" and "k \<le> length cs" by simp_all
  with replaceAll_match [of m c cs k f] s n show ?thesis by simp
qed

lemma lazy_until_close:
  assumes "\<not> sublist (str ''</think>'') c"
  shows "r_lazy anyChar (r_lit (str ''</think>'') r_accept) (c @ str ''</think>'' @ post)
           = Some (length c + 8)"
  using assms
proof (induction c)
  case Nil
  have "r_lit (str ''</think>'') r_accept (str ''</think>'' @ post) = Some 8"
    by (simp add: r_lit_prefix r_accept_def str_def)
  moreover have "str ''</think>'' @ post = 60 # (tl (str ''</think>'') @ post)"
    by (simp add: str_def)
  ultimately have "r_lazy anyChar (r_lit (str ''</think>'') r_accept) (60 # (tl (str ''</think>'') @ post)) = Some 8"
    by (simp only: r_lazy.simps option.case)
  then show ?case by (simp add: str_def)
next
  case (Cons x c)
  from Cons.prems have nc: "\<not> sublist (str ''</think>'') c"
    by (simp add: sublist_Cons_right)
  have "\<not> prefix (str ''</think>'') ((x # c) @ str ''</think>'' @ post)"
  proof
    assume "prefix (str ''</think>'') ((x # c) @ str ''</think>'' @ post)"
    then have "prefix (str ''</think>'') (x # c)"
      using close_border_free prefix_border_free [of "str ''</think>''" "x # c" post] by blast
    then have "sublist (str ''</think>'') (x # c)" by (simp add: sublist_Cons_right)
    with Cons.prems show False by simp
  qed
  then have "r_lit (str ''</think>'') r_accept (x # c @ str ''</think>'' @ post) = None"
    by (simp add: r_lit_prefix)
  with Cons.IH [OF nc] show ?case by (simp add: anyChar_def)
qed

lemma think_re_span:
  assumes "\<not> sublist (str ''</think>'') c"
  shows "think_re (str ''<think>'' @ c @ str ''</think>'' @ post) = Some (7 + (length c + 8))"
proof -
  have "length (str ''<think>'') = 7" by (simp add: str_def)
  with lazy_until_close [OF assms, of post] show ?thesis
    by (simp add: think_re_def r_lit_prefix [of "str ''<think>''"])
qed

lemma think_re_starts: "think_re t \<noteq> None \<Longrightarrow> prefix (str ''<think>'') t"
  by (simp add: think_re_def r_lit_prefix [of "str ''<think>''"] split: if_splits)

lemma think_re_before:
  assumes "\<not> sublist (str ''<think>'') pre" and "i < length pre"
  shows "think_re (drop i pre @ str ''<think>'' @ rest) = None"
proof (rule ccontr)
  assume "think_re (drop i pre @ str ''<think>'' @ rest) \<noteq> None"
  then have "prefix (str ''<think>'') (drop i pre @ str ''<think>'' @ rest)"
    by (rule think_re_starts)
  moreover from assms(2) have "drop i pre \<noteq> []" by simp
  ultimately have "prefix (str ''<think>'') (drop i pre)"
    using open_border_free prefix_border_free [of "str ''<think>''" "drop i pre" rest] by blast
  then have "sublist (str ''<think>'') pre" by (rule prefix_sublist)
  with assms(1) show False by simp
qed

lemma replaceAll_think_span:
  assumes pre: "\<not> sublist (str ''<think>'') pre" and c: "\<not> sublist (str ''</think>'') c"
  shows "replaceAll think_re f 0 (pre @ str ''<think>'' @ c @ str ''</think>'' @ post) =
           pre @ f (str ''<think>'' @ c @ str ''</think>'') @ replaceAll think_re f 0 post"
proof -
  let ?span = "str ''<think>'' @ c @ str ''</think>''"
  have len: "length ?span = 7 + (length c + 8)" by (simp add: str_def)
  have "\<forall>i < length pre. think_re (drop i pre @ ?span @ post) = None"
    using think_re_before [OF pre] by simp
  then have 1: "replaceAll think_re f 0 (pre @ ?span @ post) =
      pre @ replaceAll think_re f 0 (?span @ post)"
    by (rule replaceAll_prefix)
  have m: "think_re (?span @ post) = Some (length ?span)"
    using think_re_span [OF c, of post] len by simp
  have "replaceAll think_re f 0 (?span @ post) =
      f (take (length ?span) (?span @ post)) @ replaceAll think_re f 0 (drop (length ?span) (?span @ post))"
    using m by (rule replaceAll_match_at) (simp_all add: str_def)
  then have 2: "replaceAll think_re f 0 (?span @ post) = f ?span @ replaceAll think_re f 0 post"
    by simp
  from 1 2 show ?thesis by simp
qed

lemma limitThinking_span:
  "limitThinking (str ''<think>'' @ c @ str ''</think>'') =
     (if 200 < length c then str ''<think>'' @ take 200 c @ str ''...'' @ str ''</think>''
      else str ''<think>'' @ c @ str ''</think>'')"
proof -
  have "length (str ''<think>'' @ c @ str ''</think>'') - 15 = length c"
    by (simp add: str_def)
  moreover have "drop 7 (str ''<think>'' @ c @ str ''</think>'') = c @ str ''</think>''"
    by (simp add: str_def)
  ultimately have "take (length (str ''<think>'' @ c @ str ''</think>'') - 15)
      (drop 7 (str ''<think>'' @ c @ str ''</think>'')) = c" by simp
  then show ?thesis
    unfolding limitThinking_def Let_def by (simp add: str_def)
qed

lemma sublist_of_take: "sublist xs (take n ys) \<Longrightarrow> sublist xs ys"
proof -
  assume "sublist xs (take n ys)"
  then obtain p r where "take n ys = p @ xs @ r" by (auto simp: sublist_def)
  then have "ys = p @ xs @ (r @ drop n ys)" by (metis append_assoc append_take_drop_id)
  then show ?thesis unfolding sublist_def by blast
qed

lemma truncated_has_no_close:
  assumes "\<not> sublist (str ''</think>'') c"
  shows "\<not> sublist (str ''</think>'') (take 200 c @ str ''...'')"
proof
  assume "sublist (str ''</think>'') (take 200 c @ str ''...'')"
  then consider "sublist (str ''</think>'') (take 200 c)"
    | "sublist (str ''</think>'') (str ''...'')"
    | xs1 xs2 where "str ''</think>'' = xs1 @ xs2" "suffix xs1 (take 200 c)" "prefix xs2 (str ''...'')"
    unfolding sublist_append by blast
  then show False
  proof cases
    case 1
    then have "sublist (str ''</think>'') c" by (rule sublist_of_take)
    with assms show False by simp
  next
    case 2
    then show False by (simp add: str_def sublist_Cons_right)
  next
    case 3
    show False
    proof (cases "xs2 = []")
      case True
      with 3 have "suffix (str ''</think>'') (take 200 c)" by simp
      then have "sublist (str ''</think>'') (take 200 c)" by (rule suffix_imp_sublist)
      then have "sublist (str ''</think>'') c" by (rule sublist_of_take)
      with assms show False by simp
    next
      case False
      from 3(3) have "set xs2 \<subseteq> set (str ''...'')" by (rule set_mono_prefix)
      moreover from False have "last xs2 \<in> set xs2" by (rule last_in_set)
      ultimately have "last xs2 \<in> set (str ''...'')" by blast
      then have "last xs2 = 46" by (simp add: str_def)
      moreover from False 3(1) have "last xs2 = last (str ''</think>'')" by simp
      ultimately show False by (simp add: str_def)
    qed
  qed
qed

lemma first_occurrence:
  "sublist lit s \<Longrightarrow> \<exists>pre r. s = pre @ lit @ r \<and> (lit \<noteq> [] \<longrightarrow> \<not> sublist lit pre)"
proof (induction s rule: length_induct)
  case (1 s)
  from "1.prems" obtain p r where s: "s = p @ lit @ r" by (auto simp: sublist_def)
  show ?case
  proof (cases "lit \<noteq> [] \<and> sublist lit p")
    case False
    with s show ?thesis by blast
  next
    case True
    then have "length p < length s" using s by simp
    with 1 True obtain pre r' where p: "p = pre @ lit @ r'" and n: "lit \<noteq> [] \<longrightarrow> \<not> sublist lit pre"
      by blast
    from s p have "s = pre @ lit @ (r' @ lit @ r)" by simp
    with n show ?thesis by blast
  qed
qed

lemma lazy_close_found:
  "r_lazy anyChar (r_lit (str ''</think>'') r_accept) r \<noteq> None \<Longrightarrow> sublist (str ''</think>'') r"
proof (induction r)
  case Nil
  then show ?case by (simp add: r_lit_prefix str_def)
next
  case (Cons x r)
  show ?case
  proof (cases "r_lit (str ''</think>'') r_accept (x # r)")
    case (Some n)
    then have "prefix (str ''</think>'') (x # r)"
      by (simp add: r_lit_prefix split: if_splits)
    then show ?thesis by (rule prefix_imp_sublist)
  next
    case None
    have "anyChar x" by (simp add: anyChar_def)
    with None Cons.prems have "r_lazy anyChar (r_lit (str ''</think>'') r_accept) r \<noteq> None"
      by (auto split: option.splits)
    then have "sublist (str ''</think>'') r" by (rule Cons.IH)
    then show ?thesis by (simp add: sublist_Cons_right)
  qed
qed

lemma think_re_matches_iff:
  "think_re t \<noteq> None \<longleftrightarrow> (\<exists>r. t = str ''<think>'' @ r \<and> sublist (str ''</think>'') r)"
proof
  assume m: "think_re t \<noteq> None"
  then have "prefix (str ''<think>'') t" by (rule think_re_starts)
  then obtain r where t: "t = str ''<think>'' @ r" by (auto simp: prefix_def)
  have "length (str ''<think>'') = 7" by (simp add: str_def)
  with m t have "r_lazy anyChar (r_lit (str ''</think>'') r_accept) r \<noteq> None"
    by (simp add: think_re_def r_lit_prefix [of "str ''<think>''"])
  then have "sublist (str ''</think>'') r" by (rule lazy_close_found)
  with t show "\<exists>r. t = str ''<think>'' @ r \<and> sublist (str ''</think>'') r" by blast
next
  assume "\<exists>r. t = str ''<think>'' @ r \<and> sublist (str ''</think>'') r"
  then obtain r where t: "t = str ''<think>'' @ r" and "sublist (str ''</think>'') r" by blast
  then obtain c post where r: "r = c @ str ''</think>'' @ post"
    and "str ''</think>'' \<noteq> [] \<longrightarrow> \<not> sublist (str ''</think>'') c"
    using first_occurrence by blast
  then have "\<not> sublist (str ''</think>'') c" by (simp add: str_def)
  from think_re_span [OF this, of post] t r show "think_re t \<noteq> None" by simp
qed

lemma first_span:
  assumes "\<exists>i \<le> length s. think_re (drop i s) \<noteq> None"
  shows "\<exists>pre c post. s = pre @ str ''<think>'' @ c @ str ''</think>'' @ post
           \<and> \<not> sublist (str ''<think>'') pre \<and> \<not> sublist (str ''</think>'') c"
proof -
  let ?P = "\<lambda>i. think_re (drop i s) \<noteq> None"
  from assms have "\<exists>i. ?P i" by blast
  then have "\<exists>i. ?P i \<and> (\<forall>j < i. \<not> ?P j)"
    by (rule iffD1 [OF exists_least_iff])
  then obtain i where i: "think_re (drop i s) \<noteq> None"
    and least: "\<forall>j < i. think_re (drop j s) = None"
    by blast
  from i obtain r where d: "drop i s = str ''<think>'' @ r" and "sublist (str ''</think>'') r"
    using think_re_matches_iff by blast
  then obtain c post where r: "r = c @ str ''</think>'' @ post"
    and "str ''</think>'' \<noteq> [] \<longrightarrow> \<not> sublist (str ''</think>'') c"
    using first_occurrence by blast
  then have c: "\<not> sublist (str ''</think>'') c" by (simp add: str_def)
  define pre where "pre = take i s"
  have s: "s = pre @ str ''<think>'' @ c @ str ''</think>'' @ post"
    unfolding pre_def using d r by (metis append_take_drop_id)
  have il: "i \<le> length s"
  proof (rule ccontr)
    assume "\<not> i \<le> length s"
    then have "drop i s = []" by simp
    with d show False by (simp add: str_def)
  qed
  then have lp: "length pre = i" by (simp add: pre_def)
  have "\<not> sublist (str ''<think>'') pre"
  proof
    assume "sublist (str ''<think>'') pre"
    then obtain p q where p: "pre = p @ str ''<think>'' @ q" by (auto simp: sublist_def)
    then have "length p < length pre" by (simp add: str_def)
    with lp have lt: "length p < i" by simp
    have "s = p @ str ''<think>'' @ (q @ str ''<think>'' @ c @ str ''</think>'' @ post)"
      by (simp add: s p)
    then have "drop (length p) s = str ''<think>'' @ (q @ str ''<think>'' @ c @ str ''</think>'' @ post)"
      by simp
    moreover have "q @ str ''<think>'' @ c @ str ''</think>'' @ post =
        (q @ str ''<think>'' @ c) @ str ''</think>'' @ post" by simp
    then have "sublist (str ''</think>'') (q @ str ''<think>'' @ c @ str ''</think>'' @ post)"
      unfolding sublist_def by blast
    ultimately have m: "think_re (drop (length p) s) \<noteq> None"
      using think_re_matches_iff by blast
    from least lt have "think_re (drop (length p) s) = None" by simp
    with m show False by simp
  qed
  with s c show ?thesis by blast
qed

lemma truncation_is_dead: "removeThinking (limitThinkingPass s) = removeThinking s"
proof (induction s rule: length_induct)
  case (1 s)
  show ?case
  proof (cases "\<exists>i \<le> length s. think_re (drop i s) \<noteq> None")
    case False
    then have "limitThinkingPass s = s"
      unfolding limitThinkingPass_def by (intro replaceAll_id) blast
    then show ?thesis by simp
  next
    case True
    then obtain pre c post where s: "s = pre @ str ''<think>'' @ c @ str ''</think>'' @ post"
      and pre: "\<not> sublist (str ''<think>'') pre" and c: "\<not> sublist (str ''</think>'') c"
      using first_span by blast
    let ?c' = "if 200 < length c then take 200 c @ str ''...'' else c"
    have c': "\<not> sublist (str ''</think>'') ?c'"
      using c truncated_has_no_close by simp
    have "length post < length s" using s by (simp add: str_def)
    with 1 have ih: "removeThinking (limitThinkingPass post) = removeThinking post" by blast
    have "limitThinkingPass s = pre @ str ''<think>'' @ ?c' @ str ''</think>'' @ limitThinkingPass post"
      unfolding limitThinkingPass_def s
      by (simp add: replaceAll_think_span [OF pre c] limitThinking_span)
    then have "removeThinking (limitThinkingPass s) = pre @ removeThinking (limitThinkingPass post)"
      unfolding removeThinking_def
      by (simp only: replaceAll_think_span [OF pre c'] append_Nil)
    moreover have "removeThinking s = pre @ removeThinking post"
      unfolding removeThinking_def s
      by (simp only: replaceAll_think_span [OF pre c] append_Nil)
    ultimately show ?thesis using ih by simp
  qed
qed

text \<open>
  C2, amended. For the first span of a text (no opening tag before it, the nearest
  closing tag at its end): the first pass keeps the span when its content has at most
  200 units and otherwise cuts the content to its first 200 units followed by three
  dots, inside the tags; the second pass removes the span, cut or not, tags and content;
  both passes go on in the same way behind the span. The cut never shows in the output:
  removing the spans after the first pass gives what removing them at once gives.
  (That the output holds no span at all is false, as the response with a span inside an
  opening tag above shows.)
\<close>

theorem C2_spans_cut_then_removed:
  assumes "\<not> sublist (str ''<think>'') pre" and "\<not> sublist (str ''</think>'') c"
  shows "limitThinkingPass (pre @ str ''<think>'' @ c @ str ''</think>'' @ post) =
           pre @ str ''<think>'' @ (if 200 < length c then take 200 c @ str ''...'' else c)
             @ str ''</think>'' @ limitThinkingPass post
       \<and> removeThinking (limitThinkingPass (pre @ str ''<think>'' @ c @ str ''</think>'' @ post)) =
           pre @ removeThinking (limitThinkingPass post)
       \<and> removeThinking (limitThinkingPass post) = removeThinking post
       \<and> cleanResponse (pre @ str ''<think>'' @ c @ str ''</think>'' @ post) =
           trim (normalizeSpaces (normalizeNewlines (removeEndTokens (removeEndOfSentence
             (removeSpecial (removeRedacted (pre @ removeThinking post)))))))"
proof -
  let ?c' = "if 200 < length c then take 200 c @ str ''...'' else c"
  have c': "\<not> sublist (str ''</think>'') ?c'"
    using assms(2) truncated_has_no_close by simp
  have 1: "limitThinkingPass (pre @ str ''<think>'' @ c @ str ''</think>'' @ post) =
           pre @ str ''<think>'' @ ?c' @ str ''</think>'' @ limitThinkingPass post"
    unfolding limitThinkingPass_def
    by (simp add: replaceAll_think_span [OF assms] limitThinking_span)
  have 2: "removeThinking (pre @ str ''<think>'' @ ?c' @ str ''</think>'' @ limitThinkingPass post) =
           pre @ removeThinking (limitThinkingPass post)"
    unfolding removeThinking_def
    by (simp only: replaceAll_think_span [OF assms(1) c'] append_Nil)
  have 3: "removeThinking (limitThinkingPass post) = removeThinking post"
    by (rule truncation_is_dead)
  from 1 2 have 4: "removeThinking (limitThinkingPass (pre @ str ''<think>'' @ c @ str ''</think>'' @ post)) =
           pre @ removeThinking (limitThinkingPass post)" by simp
  have 5: "cleanResponse (pre @ str ''<think>'' @ c @ str ''</think>'' @ post) =
           trim (normalizeSpaces (normalizeNewlines (removeEndTokens (removeEndOfSentence
             (removeSpecial (removeRedacted (pre @ removeThinking post)))))))"
    unfolding cleanResponse_def by (simp only: 4 3)
  from 1 4 3 5 show ?thesis by blast
qed

theorem C2_spans_cut_then_removed_witness:
  "\<not> sublist (str ''<think>'') (str ''Hi '')
   \<and> \<not> sublist (str ''</think>'') (replicate 201 120)
   \<and> limitThinkingPass
         (str ''Hi '' @ str ''<think>'' @ replicate 201 120 @ str ''</think>'' @ str '' there'')
       = str ''Hi '' @ str ''<think>'' @ replicate 200 120 @ str ''...'' @ str ''</think>'' @ str '' there''
   \<and> cleanResponse
         (str ''Hi '' @ str ''<think>'' @ replicate 201 120 @ str ''</think>'' @ str '' there'')
       = str ''Hi there''"
proof -
  have h1: "\<not> sublist (str ''<think>'') (str ''Hi '')"
    by (simp add: str_def sublist_Cons_right)
  have h2: "\<not> sublist (str ''</think>'') (replicate 201 120)"
  proof
    assume "sublist (str ''</think>'') (replicate 201 120)"
    then have "set (str ''</think>'') \<subseteq> set (replicate 201 (120::nat))" by (rule set_mono_sublist)
    then show False by (simp add: str_def)
  qed
  have e1: "limitThinkingPass (str '' there'') = str '' there''"
    by (simp add: cleanResponse_eval)
  have e2: "removeThinking (str '' there'') = str '' there''"
    by (simp add: cleanResponse_eval)
  have e3: "trim (normalizeSpaces (normalizeNewlines (removeEndTokens (removeEndOfSentence
             (removeSpecial (removeRedacted (str ''Hi '' @ str '' there''))))))) = str ''Hi there''"
    by (simp add: cleanResponse_eval)
  from C2_spans_cut_then_removed [OF h1 h2, of "str '' there''"] h1 h2 e1 e2 e3
  show ?thesis by simp
qed

subsection \<open>Cleaning twice\<close>

lemma r_char_le:
  assumes "\<And>t n. k t = Some n \<Longrightarrow> n \<le> length t" and "r_char p k t = Some n"
  shows "n \<le> length t"
proof (cases t)
  case Nil
  with assms(2) show ?thesis by simp
next
  case (Cons c cs)
  with assms(2) obtain j where "k cs = Some j" and "n = Suc j"
    by (auto split: if_splits)
  with assms(1) [of cs j] Cons show ?thesis by simp
qed

lemma r_char_pos: "r_char p k t = Some n \<Longrightarrow> 0 < n"
  by (cases t) (auto split: if_splits)

lemma r_lit_le:
  assumes "\<And>t n. k t = Some n \<Longrightarrow> n \<le> length t"
  shows "r_lit lit k t = Some n \<Longrightarrow> n \<le> length t"
proof (induction lit arbitrary: t n)
  case Nil
  with assms show ?case by simp
next
  case (Cons a lit)
  from Cons.IH Cons.prems show ?case unfolding r_lit.simps by (rule r_char_le)
qed

lemma r_lit_ci_le:
  assumes "\<And>t n. k t = Some n \<Longrightarrow> n \<le> length t"
  shows "r_lit_ci lit k t = Some n \<Longrightarrow> n \<le> length t"
proof (induction lit arbitrary: t n)
  case Nil
  with assms show ?case by simp
next
  case (Cons a lit)
  from Cons.IH Cons.prems show ?case unfolding r_lit_ci.simps by (rule r_char_le)
qed

lemma r_lazy_le:
  assumes "\<And>t n. k t = Some n \<Longrightarrow> n \<le> length t"
  shows "r_lazy p k t = Some n \<Longrightarrow> n \<le> length t"
proof (induction t arbitrary: n)
  case Nil
  with assms [of "[]" n] show ?case by simp
next
  case (Cons c cs)
  show ?case
  proof (cases "k (c # cs)")
    case (Some j)
    with Cons.prems have "n = j" by simp
    with assms [OF Some] show ?thesis by simp
  next
    case None
    with Cons.prems obtain j where "r_lazy p k cs = Some j" and "n = Suc j"
      by (auto split: if_splits)
    with Cons.IH [of j] show ?thesis by simp
  qed
qed

lemma r_accept_le: "r_accept t = Some n \<Longrightarrow> n \<le> length t"
  by (simp add: r_accept_def)

lemma think_re_bound:
  assumes "think_re t = Some n"
  shows "0 < n \<and> n \<le> length t"
proof -
  have 1: "j \<le> length u" if "r_lit (str ''</think>'') r_accept u = Some j" for u j
    using r_accept_le that by (rule r_lit_le)
  have 2: "j \<le> length u"
    if "r_lazy anyChar (r_lit (str ''</think>'') r_accept) u = Some j" for u j
    using 1 that by (rule r_lazy_le)
  have "n \<le> length t"
    using 2 assms unfolding think_re_def by (rule r_lit_le)
  moreover have "0 < n"
    using assms unfolding think_re_def str_def by (simp add: r_char_pos)
  ultimately show ?thesis by simp
qed

lemma redacted_re_bound:
  assumes "redacted_re t = Some n"
  shows "0 < n \<and> n \<le> length t"
proof -
  have "n \<le> length t"
    using r_accept_le assms unfolding redacted_re_def by (rule r_lit_le)
  moreover have "0 < n"
    using assms unfolding redacted_re_def str_def by (simp add: r_char_pos)
  ultimately show ?thesis by simp
qed

lemma special_re_bound:
  assumes "special_re t = Some n"
  shows "0 < n \<and> n \<le> length t"
proof -
  have 1: "j \<le> length u" if "r_lit (str ''|>'') r_accept u = Some j" for u j
    using r_accept_le that by (rule r_lit_le)
  have 2: "j \<le> length u" if "r_lazy dot (r_lit (str ''|>'') r_accept) u = Some j" for u j
    using 1 that by (rule r_lazy_le)
  have "n \<le> length t"
    using 2 assms unfolding special_re_def by (rule r_lit_le)
  moreover have "0 < n"
    using assms unfolding special_re_def str_def by (simp add: r_char_pos)
  ultimately show ?thesis by simp
qed

lemma eos_re_bound:
  assumes "eos_re t = Some n"
  shows "0 < n \<and> n \<le> length t"
proof -
  have "n \<le> length t"
    using r_accept_le assms unfolding eos_re_def by (rule r_lit_ci_le)
  moreover have "0 < n"
    using assms unfolding eos_re_def str_def by (simp add: r_char_pos)
  ultimately show ?thesis by simp
qed

lemma endtok_re_bound:
  assumes "endtok_re t = Some n"
  shows "0 < n \<and> n \<le> length t"
proof -
  let ?k1 = "r_lit_ci ([65372] @ str ''>'') r_accept"
  let ?k2 = "r_lazy dot ?k1"
  let ?k3 = "r_lit_ci (str ''end'') ?k2"
  let ?k4 = "r_lazy dot ?k3"
  have 1: "j \<le> length u" if "?k1 u = Some j" for u j
    using r_accept_le that by (rule r_lit_ci_le)
  have 2: "j \<le> length u" if "?k2 u = Some j" for u j
    using 1 that by (rule r_lazy_le)
  have 3: "j \<le> length u" if "?k3 u = Some j" for u j
    using 2 that by (rule r_lit_ci_le)
  have 4: "j \<le> length u" if "?k4 u = Some j" for u j
    using 3 that by (rule r_lazy_le)
  have "n \<le> length t"
    using 4 assms unfolding endtok_re_def by (rule r_lit_ci_le)
  moreover have "0 < n"
    using assms unfolding endtok_re_def str_def by (simp add: r_char_pos)
  ultimately show ?thesis by simp
qed

text \<open>A pass that replaces every match by a text no longer than the match does not
  lengthen; a pass that removes every match shortens a text in which there is one.\<close>

lemma replaceAll_length_le:
  assumes b: "\<And>t n. m t = Some n \<Longrightarrow> 0 < n \<and> n \<le> length t"
    and f: "\<And>t n. m t = Some n \<Longrightarrow> length (f (take n t)) \<le> n"
  shows "length (replaceAll m f 0 s) \<le> length s"
proof (induction s rule: length_induct)
  case (1 s)
  show ?case
  proof (cases "m s")
    case None
    show ?thesis
    proof (cases s)
      case Nil
      with None show ?thesis by simp
    next
      case (Cons c cs)
      with 1 have "length (replaceAll m f 0 cs) \<le> length cs" by simp
      with None Cons show ?thesis by simp
    qed
  next
    case (Some n)
    from b [OF Some] have n: "0 < n" "n \<le> length s" by simp_all
    then have "length (drop n s) < length s" by simp
    with 1 have "length (replaceAll m f 0 (drop n s)) \<le> length (drop n s)" by blast
    moreover have "replaceAll m f 0 s = f (take n s) @ replaceAll m f 0 (drop n s)"
      using Some n by (rule replaceAll_match_at)
    moreover note f [OF Some]
    ultimately show ?thesis using n by simp
  qed
qed

lemma replaceAll_length_less:
  assumes b: "\<And>t n. m t = Some n \<Longrightarrow> 0 < n \<and> n \<le> length t"
    and "\<not> noMatch m s"
  shows "length (replaceAll m (\<lambda>x. []) 0 s) < length s"
  using assms(2)
proof (induction s)
  case Nil
  then obtain n where n: "m [] = Some n" by auto
  from b [OF n] show ?case by auto
next
  case (Cons c cs)
  show ?case
  proof (cases "m (c # cs)")
    case None
    with Cons.prems have "\<not> noMatch m cs" by simp
    then have "length (replaceAll m (\<lambda>x. []) 0 cs) < length cs" by (rule Cons.IH)
    with None show ?thesis by simp
  next
    case (Some n)
    from b [OF Some] have n: "0 < n" "n \<le> length (c # cs)" by simp_all
    have "replaceAll m (\<lambda>x. []) 0 (c # cs) = [] @ replaceAll m (\<lambda>x. []) 0 (drop n (c # cs))"
      using Some n by (rule replaceAll_match_at)
    moreover have "length (replaceAll m (\<lambda>x. []) 0 (drop n (c # cs))) \<le> length (drop n (c # cs))"
      using b by (rule replaceAll_length_le) simp_all
    ultimately show ?thesis using n by simp
  qed
qed

lemma lastNewline_ge_count: "lastNewline w = Some n \<Longrightarrow> count_list w 10 \<le> n"
proof (induction w arbitrary: n)
  case Nil
  then show ?case by simp
next
  case (Cons c cs)
  show ?case
  proof (cases "lastNewline cs")
    case None
    then have "count_list cs 10 = 0" by (simp add: lastNewline_count)
    with None Cons.prems show ?thesis by (simp split: if_splits)
  next
    case (Some j)
    then have "count_list cs 10 \<le> j" by (rule Cons.IH)
    with Some Cons.prems show ?thesis by auto
  qed
qed

lemma newlines_re_bound:
  assumes "newlines_re t = Some n"
  shows "0 < n \<and> n \<le> length t \<and> 2 \<le> n"
proof -
  from assms obtain c cs where t: "t = c # cs" by (cases t) auto
  with assms obtain j where c: "2 \<le> count_list (takeWhile isWhiteSpace cs) 10"
    and j: "lastNewline (takeWhile isWhiteSpace cs) = Some j" and n: "n = Suc j"
    by (auto simp: newlines_re_Cons split: if_splits)
  from j have "count_list (takeWhile isWhiteSpace cs) 10 \<le> j" by (rule lastNewline_ge_count)
  with c n newlines_re_le [OF assms] show ?thesis by simp
qed

lemma hspace_re_bound:
  assumes "hspace_re t = Some n"
  shows "0 < n \<and> n \<le> length t"
proof -
  from assms have t: "t \<noteq> []" "isHSpace (hd t)" and n: "n = length (takeWhile isHSpace t)"
    by (auto simp: hspace_re_eq split: if_splits)
  from t have "0 < length (takeWhile isHSpace t)" by (cases t) simp_all
  moreover have "length (takeWhile isHSpace t) \<le> length t" by (rule length_takeWhile_le)
  ultimately show ?thesis using n by simp
qed

lemma tidy_length_le: "length (tidy t) \<le> length t"
proof -
  have "length (normalizeNewlines t) \<le> length t"
    unfolding normalizeNewlines_def
  proof (rule replaceAll_length_le)
    fix u n assume "newlines_re u = Some n"
    then show "0 < n \<and> n \<le> length u" and "length [10, 10 :: nat] \<le> n"
      using newlines_re_bound [of u n] by simp_all
  qed
  moreover have "length (normalizeSpaces (normalizeNewlines t)) \<le> length (normalizeNewlines t)"
    unfolding normalizeSpaces_def
  proof (rule replaceAll_length_le)
    fix u n assume "hspace_re u = Some n"
    then show "0 < n \<and> n \<le> length u" and "length [32 :: nat] \<le> n"
      using hspace_re_bound [of u n] by simp_all
  qed
  moreover have "length (trim u) \<le> length u" for u :: jsstring
  proof -
    have "length (trim u) \<le> length (dropWhile isWhiteSpace u)"
      unfolding trim_def using length_dropWhile_le [of isWhiteSpace "rev (dropWhile isWhiteSpace u)"]
      by simp
    also have "\<dots> \<le> length u" by (rule length_dropWhile_le)
    finally show ?thesis .
  qed
  ultimately show ?thesis unfolding tidy_def
    by (meson le_trans)
qed

lemma removal_le:
  assumes "\<And>t n. m t = Some n \<Longrightarrow> 0 < n \<and> n \<le> length t"
  shows "length (replaceAll m (\<lambda>x. []) 0 s) \<le> length s"
  using assms by (rule replaceAll_length_le) simp_all

text \<open>A text in which a marker pattern matches somewhere is made shorter by
  \<open>cleanResponse\<close>: it is not a fixed point.\<close>

lemma cleanResponse_shortens:
  assumes "\<not> markerFree r"
  shows "length (cleanResponse r) < length r"
proof -
  let ?a1 = "removeThinking r"
  let ?a2 = "removeRedacted ?a1"
  let ?a3 = "removeSpecial ?a2"
  let ?a4 = "removeEndOfSentence ?a3"
  let ?a5 = "removeEndTokens ?a4"
  have c: "cleanResponse r = tidy ?a5"
    by (simp add: cleanResponse_def tidy_def truncation_is_dead)
  have l0: "length (tidy ?a5) \<le> length ?a5" by (rule tidy_length_le)
  have l1: "length ?a1 \<le> length r"
    unfolding removeThinking_def using think_re_bound by (rule removal_le)
  have l2: "length ?a2 \<le> length ?a1"
    unfolding removeRedacted_def using redacted_re_bound by (rule removal_le)
  have l3: "length ?a3 \<le> length ?a2"
    unfolding removeSpecial_def using special_re_bound by (rule removal_le)
  have l4: "length ?a4 \<le> length ?a3"
    unfolding removeEndOfSentence_def using eos_re_bound by (rule removal_le)
  have l5: "length ?a5 \<le> length ?a4"
    unfolding removeEndTokens_def using endtok_re_bound by (rule removal_le)
  have s1: "length ?a1 < length r" if "\<not> noMatch think_re r"
    unfolding removeThinking_def using think_re_bound that by (rule replaceAll_length_less)
  have s2: "length ?a2 < length ?a1" if "\<not> noMatch redacted_re ?a1"
    unfolding removeRedacted_def [of ?a1] using redacted_re_bound that by (rule replaceAll_length_less)
  have s3: "length ?a3 < length ?a2" if "\<not> noMatch special_re ?a2"
    unfolding removeSpecial_def [of ?a2] using special_re_bound that by (rule replaceAll_length_less)
  have s4: "length ?a4 < length ?a3" if "\<not> noMatch eos_re ?a3"
    unfolding removeEndOfSentence_def [of ?a3] using eos_re_bound that by (rule replaceAll_length_less)
  have s5: "length ?a5 < length ?a4" if "\<not> noMatch endtok_re ?a4"
    unfolding removeEndTokens_def [of ?a4] using endtok_re_bound that by (rule replaceAll_length_less)
  have "length ?a5 < length r"
  proof (cases "noMatch think_re r")
    case False
    from s1 [OF False] l2 l3 l4 l5 show ?thesis by linarith
  next
    case n1: True
    then have e1: "?a1 = r" by (simp add: removeThinking_def replaceAll_noMatch)
    show ?thesis
    proof (cases "noMatch redacted_re r")
      case False
      with e1 have "\<not> noMatch redacted_re ?a1" by simp
      from s2 [OF this] l1 l3 l4 l5 show ?thesis by linarith
    next
      case n2: True
      with e1 have e2: "?a2 = r" by (simp add: removeRedacted_def replaceAll_noMatch)
      show ?thesis
      proof (cases "noMatch special_re r")
        case False
        with e2 have "\<not> noMatch special_re ?a2" by simp
        from s3 [OF this] l1 l2 l4 l5 show ?thesis by linarith
      next
        case n3: True
        with e2 have e3: "?a3 = r" by (simp add: removeSpecial_def replaceAll_noMatch)
        show ?thesis
        proof (cases "noMatch eos_re r")
          case False
          with e3 have "\<not> noMatch eos_re ?a3" by simp
          from s4 [OF this] l1 l2 l3 l5 show ?thesis by linarith
        next
          case n4: True
          with e3 have e4: "?a4 = r" by (simp add: removeEndOfSentence_def replaceAll_noMatch)
          from assms n1 n2 n3 n4 have "\<not> noMatch endtok_re r" by (simp add: markerFree_def)
          with e4 have "\<not> noMatch endtok_re ?a4" by simp
          from s5 [OF this] l1 l2 l3 l4 show ?thesis by linarith
        qed
      qed
    qed
  qed
  with c l0 show ?thesis by simp
qed

text \<open>
  C3, amended. Cleaning an already cleaned string returns it unchanged exactly when none
  of the five patterns that the first six passes replace (a reasoning span, the redacted
  token, \<^verbatim>\<open><|...|>\<close> and the two end tokens with fullwidth bars) matches at
  any position of the cleaned string. A cleaned string may hold \<open><\<close> and the other
  characters of the markers, as long as they form no match. Where a pattern does match,
  the second cleaning returns a shorter string, as for the response with a marker inside
  a marker above.
\<close>

theorem C3_idempotent_iff_no_marker:
  "cleanResponse (cleanResponse s) = cleanResponse s \<longleftrightarrow> markerFree (cleanResponse s)"
proof
  assume e: "cleanResponse (cleanResponse s) = cleanResponse s"
  show "markerFree (cleanResponse s)"
  proof (rule ccontr)
    assume "\<not> markerFree (cleanResponse s)"
    then have "length (cleanResponse (cleanResponse s)) < length (cleanResponse s)"
      by (rule cleanResponse_shortens)
    with e show False by simp
  qed
next
  assume m: "markerFree (cleanResponse s)"
  have r: "cleanResponse s = tidy (stripMarkers s)" by (rule cleanResponse_tidy)
  have "cleanResponse (cleanResponse s) = tidy (stripMarkers (cleanResponse s))"
    by (rule cleanResponse_tidy)
  also have "\<dots> = tidy (cleanResponse s)"
    using m by (simp add: stripMarkers_id)
  also have "\<dots> = cleanResponse s"
    unfolding r by (rule tidy_tidy)
  finally show "cleanResponse (cleanResponse s) = cleanResponse s" .
qed

theorem C3_idempotent_iff_no_marker_witness:
  "cleanResponse (str ''  if a < b then <think>hm</think>  x'' @ [10, 10, 10, 10] @ str ''y |> z <|im_end|> '')
       = str ''if a < b then x'' @ [10, 10] @ str ''y |> z''
   \<and> markerFree (str ''if a < b then x'' @ [10, 10] @ str ''y |> z'')
   \<and> cleanResponse (str ''if a < b then x'' @ [10, 10] @ str ''y |> z'')
       = str ''if a < b then x'' @ [10, 10] @ str ''y |> z''"
proof -
  let ?s = "str ''  if a < b then <think>hm</think>  x'' @ [10, 10, 10, 10] @ str ''y |> z <|im_end|> ''"
  let ?r = "str ''if a < b then x'' @ [10, 10] @ str ''y |> z''"
  have v: "cleanResponse ?s = ?r"
    by (simp add: cleanResponse_eval)
  have p: "markerFree ?r"
    by (simp add: markerFree_def cleanResponse_eval)
  from p v have h: "markerFree (cleanResponse ?s)" by simp
  from C3_idempotent_iff_no_marker [of ?s] h v have "cleanResponse ?r = ?r" by simp
  with v p show ?thesis by simp
qed

subsection \<open>Download progress\<close>

lemma exact_half: "exactOnDoubles fl \<Longrightarrow> fl (1 / 2) = 1 / 2"
proof -
  assume a: "exactOnDoubles fl"
  have "\<bar>1::int\<bar> < 2 ^ 53 \<and> (0::nat) \<le> 971 \<and> (1::nat) \<le> 1074" by simp
  with a have "fl (of_int 1 * 2 ^ 0 / 2 ^ 1) = of_int 1 * 2 ^ 0 / 2 ^ 1"
    unfolding exactOnDoubles_def by blast
  then show ?thesis by simp
qed

lemma exact_fifty: "exactOnDoubles fl \<Longrightarrow> fl 50 = 50"
proof -
  assume a: "exactOnDoubles fl"
  have "\<bar>50::int\<bar> < 2 ^ 53 \<and> (0::nat) \<le> 971 \<and> (0::nat) \<le> 1074" by simp
  with a have "fl (of_int 50 * 2 ^ 0 / 2 ^ 0) = of_int 50 * 2 ^ 0 / 2 ^ 0"
    unfolding exactOnDoubles_def by blast
  then show ?thesis by simp
qed

text \<open>
  C8. The callback that \<open>ModelDownloader.downloadModel\<close> is given receives, for
  every progress event with a total other than zero, the quotient written / expected
  times 100, each operation rounded once: a percentage. The screen's own handler stores
  the quotient itself: a fraction. For 50 of 100 bytes the callback receives exactly 50
  and the screen stores exactly one half. (For a total of zero the value is NaN or an
  infinity.)
\<close>

theorem C8_progress_value:
  assumes "exactOnDoubles fl"
  shows "(t \<noteq> 0 \<longrightarrow>
            downloader_callback fl (Some cb)
              \<lparr>totalBytesWritten = w, totalBytesExpectedToWrite = t\<rparr> st
            = cb (Num (fl (fl (of_int w / of_int t) * 100))) st
          \<and> downloadProgress (screen_callback fl toFixed1 name
              \<lparr>totalBytesWritten = w, totalBytesExpectedToWrite = t\<rparr> ps)
            = Num (fl (of_int w / of_int t)))
       \<and> downloader_callback fl (Some cb)
            \<lparr>totalBytesWritten = 50, totalBytesExpectedToWrite = 100\<rparr> st
          = cb (Num 50) st
       \<and> downloadProgress (screen_callback fl toFixed1 name
            \<lparr>totalBytesWritten = 50, totalBytesExpectedToWrite = 100\<rparr> ps)
          = Num (1 / 2)"
proof -
  have h: "fl (1 / 2) = 1 / 2" and f: "fl 50 = 50"
    using assms by (rule exact_half, rule exact_fifty)
  have q: "(of_int 50 :: rat) / of_int 100 = 1 / 2" by simp
  show ?thesis
    by (simp add: downloader_callback_def screen_callback_def js_divide_def js_times100_def
        Let_def q h f del: of_int_numeral)
qed

theorem C8_progress_value_witness:
  "exactOnDoubles (\<lambda>q. q)
   \<and> downloader_callback (\<lambda>q. q) (Some (\<lambda>p seen. p # seen))
        \<lparr>totalBytesWritten = 50, totalBytesExpectedToWrite = 100\<rparr> [] = [Num 50]
   \<and> downloader_callback (\<lambda>q. q) (Some (\<lambda>p seen. p # seen))
        \<lparr>totalBytesWritten = 1, totalBytesExpectedToWrite = 4\<rparr> [] = [Num 25]"
proof -
  have e: "exactOnDoubles (\<lambda>q. q)" by (simp add: exactOnDoubles_def)
  have n: "(4::int) \<noteq> 0" by simp
  from C8_progress_value [OF e, of 4 "\<lambda>p seen. p # seen" 1 "[]"] e n
  show ?thesis by simp
qed

end
